theory Spec2Isabelle
  imports Main "HOL-Library.Product_Lexorder"
begin

section \<open>Strings and the interpreter's string primitives\<close>

text \<open>
  A Python \<open>str\<close> is a sequence of Unicode code points; it is modelled as a list of
  natural numbers, one per code point. ASCII literals are written through \<open>ascii\<close>.
\<close>

type_synonym pystr = "nat list"

definition ascii :: "string \<Rightarrow> pystr" where
  "ascii s = map of_char s"

text \<open>
  The code points \<open>c\<close> with \<open>chr(c).isspace()\<close>; \<open>str.strip()\<close> removes exactly these
  from both ends.
\<close>

definition is_space :: "nat \<Rightarrow> bool" where
  "is_space c = (c \<in> set [9, 10, 11, 12, 13, 28, 29, 30, 31, 32, 133, 160, 5760, 8192, 8193,
     8194, 8195, 8196, 8197, 8198, 8199, 8200, 8201, 8202, 8232, 8233, 8239, 8287, 12288])"

definition strip :: "pystr \<Rightarrow> pystr" where
  "strip s = rev (dropWhile is_space (rev (dropWhile is_space s)))"

text \<open>
  Unicode decimal digits (category Nd, Unicode 14) come in runs of ten consecutive code
  points with the values 0 to 9; \<open>uni_zeros\<close> lists the first code point of every run.
  \<open>\d\<close> in a \<open>str\<close> pattern and \<open>int()\<close> both accept all of them.
\<close>

definition uni_zeros :: "nat list" where
  "uni_zeros = [48, 1632, 1776, 1984, 2406, 2534, 2662, 2790, 2918, 3046, 3174, 3302, 3430,
     3558, 3664, 3792, 3872, 4160, 4240, 6112, 6160, 6470, 6608, 6784, 6800, 6992, 7088, 7232,
     7248, 42528, 43216, 43264, 43472, 43504, 43600, 44016, 65296, 66720, 68912, 69734, 69872,
     69942, 70096, 70384, 70736, 70864, 71248, 71360, 71472, 71904, 72016, 72784, 73040, 73120,
     92768, 92864, 93008, 120782, 120792, 120802, 120812, 120822, 123200, 123632, 125264,
     130032]"

definition to_decimal :: "nat \<Rightarrow> nat option" where
  "to_decimal c = (case find (\<lambda>z. z \<le> c \<and> c < z + 10) uni_zeros of
                     None \<Rightarrow> None | Some z \<Rightarrow> Some (c - z))"

definition is_decimal :: "nat \<Rightarrow> bool" where
  "is_decimal c = (to_decimal c \<noteq> None)"

text \<open>
  \<open>int(s)\<close> for a \<open>str\<close> in base 10, returning \<open>None\<close> where Python raises
  \<open>ValueError\<close>: surrounding whitespace is skipped (the ASCII whitespace 9-13 and 32, and
  every non-ASCII \<open>isspace\<close> character; 28-31 are not skipped), one sign is allowed,
  then at least one decimal digit, with single underscores allowed between digits, and
  nothing else. More than \<open>int_max_str_digits\<close> digits are refused (the interpreter's
  default limit).
\<close>

definition int_space :: "nat \<Rightarrow> bool" where
  "int_space c = (c \<in> set [9, 10, 11, 12, 13, 32] \<or> (127 \<le> c \<and> is_space c))"

definition int_max_str_digits :: nat where
  "int_max_str_digits = 4300"

fun underscores_ok :: "pystr \<Rightarrow> bool" where
  "underscores_ok [] = True"
| "underscores_ok [c] = (c \<noteq> 95)"
| "underscores_ok (c # d # s) = (\<not> (c = 95 \<and> d = 95) \<and> underscores_ok (d # s))"

definition digits_value :: "pystr \<Rightarrow> int" where
  "digits_value ds = fold (\<lambda>c acc. case to_decimal c of None \<Rightarrow> acc
                                      | Some d \<Rightarrow> 10 * acc + int d) ds 0"

definition py_int :: "pystr \<Rightarrow> int option" where
  "py_int s =
     (let s1 = dropWhile int_space s;
          sgn = (if s1 \<noteq> [] \<and> hd s1 = 45 then - 1 else 1 :: int);
          s2 = (if s1 \<noteq> [] \<and> (hd s1 = 43 \<or> hd s1 = 45) then tl s1 else s1);
          body = takeWhile (\<lambda>c. is_decimal c \<or> c = 95) s2;
          rest = dropWhile (\<lambda>c. is_decimal c \<or> c = 95) s2
      in if body = [] \<or> hd body = 95 \<or> \<not> underscores_ok body then None
         else if int_max_str_digits < length (filter is_decimal body) then None
         else if dropWhile int_space rest \<noteq> [] then None
         else Some (sgn * digits_value body))"

section \<open>Regular expressions\<close>

text \<open>
  The fragment of \<open>re\<close> that \<open>STUDENT_ID_RE\<close> uses. \<open>rmatch r (n, s)\<close> lists, in
  backtracking order, the states reachable by matching \<open>r\<close> at a position with \<open>n\<close>
  characters consumed and \<open>s\<close> remaining. \<open>$\<close> matches at the end of the string and
  just before a newline that ends the string.
\<close>

datatype regex = Bol | Eol | Lit nat | Digit | Range nat nat | OneOf "nat list"
  | Seq regex regex | Alt regex regex | Times nat regex

primrec rsize :: "regex \<Rightarrow> nat" where
  "rsize Bol = 0"
| "rsize Eol = 0"
| "rsize (Lit c) = 0"
| "rsize Digit = 0"
| "rsize (Range a b) = 0"
| "rsize (OneOf cs) = 0"
| "rsize (Seq r1 r2) = Suc (rsize r1 + rsize r2)"
| "rsize (Alt r1 r2) = Suc (rsize r1 + rsize r2)"
| "rsize (Times k r) = Suc (k + rsize r)"

definition one_char :: "(nat \<Rightarrow> bool) \<Rightarrow> nat \<times> pystr \<Rightarrow> (nat \<times> pystr) list" where
  "one_char P st = (case snd st of [] \<Rightarrow> []
                    | c # t \<Rightarrow> if P c then [(Suc (fst st), t)] else [])"

function rmatch :: "regex \<Rightarrow> nat \<times> pystr \<Rightarrow> (nat \<times> pystr) list" where
  "rmatch Bol st = (if fst st = 0 then [st] else [])"
| "rmatch Eol st = (if snd st = [] \<or> snd st = [10] then [st] else [])"
| "rmatch (Lit c) st = one_char (\<lambda>x. x = c) st"
| "rmatch Digit st = one_char is_decimal st"
| "rmatch (Range a b) st = one_char (\<lambda>x. a \<le> x \<and> x \<le> b) st"
| "rmatch (OneOf cs) st = one_char (\<lambda>x. x \<in> set cs) st"
| "rmatch (Seq r1 r2) st = concat (map (rmatch r2) (rmatch r1 st))"
| "rmatch (Alt r1 r2) st = rmatch r1 st @ rmatch r2 st"
| "rmatch (Times 0 r) st = [st]"
| "rmatch (Times (Suc k) r) st = concat (map (rmatch (Times k r)) (rmatch r st))"
  by pat_completeness auto
termination
  by (relation "measure (\<lambda>(r, st). rsize r)") auto

definition re_match :: "regex \<Rightarrow> pystr \<Rightarrow> bool" where
  "re_match r s = (rmatch r (0, s) \<noteq> [])"

text \<open>\<^verbatim>\<open>STUDENT_ID_RE = re.compile(r"^(15\d{5}|[48][1-6]\d{5})$")\<close>\<close>

definition STUDENT_ID_RE :: regex where
  "STUDENT_ID_RE =
     Seq Bol (Seq (Alt (Seq (Lit 49) (Seq (Lit 53) (Times 5 Digit)))
                       (Seq (OneOf [52, 56]) (Seq (Range 49 54) (Times 5 Digit))))
                  Eol)"

definition is_valid_student_id :: "pystr \<Rightarrow> bool" where
  "is_valid_student_id v = re_match STUDENT_ID_RE v"

text \<open>
  The ID format as the specification words it, for comparison with the code: a 6-digit
  code beginning with 15, or a 6-digit code whose first character is 4, 5, 6 or 1 and
  whose second character is a digit 1 to 6.
\<close>

definition spec_student_id :: "pystr \<Rightarrow> bool" where
  "spec_student_id v =
     (length v = 6 \<and> list_all (\<lambda>c. 48 \<le> c \<and> c \<le> 57) v \<and>
      (take 2 v = [49, 53] \<or> (hd v \<in> set [52, 53, 54, 49] \<and> 49 \<le> v ! 1 \<and> v ! 1 \<le> 54)))"

section \<open>Raw records and the floor preference\<close>

text \<open>
  A raw record with string values is the \<open>Dict[str, str]\<close> of the annotations. The column
  names and the sentinel strings of the form are Japanese text; they are given by code
  point.
\<close>

type_synonym raw_row = "pystr \<rightharpoonup> pystr"

definition row_get :: "raw_row \<Rightarrow> pystr \<Rightarrow> pystr \<Rightarrow> pystr" where
  "row_get r k d = (case r k of None \<Rightarrow> d | Some v \<Rightarrow> v)"

definition COL_TIMESTAMP :: pystr where
  "COL_TIMESTAMP = [12479, 12452, 12512, 12473, 12479, 12531, 12503]"

definition COL_EMAIL :: pystr where
  "COL_EMAIL = [12513, 12540, 12523, 12450, 12489, 12524, 12473]"

definition COL_CONSENT :: pystr where
  "COL_CONSENT = [35215, 32004, 12408, 12398, 21516, 24847]"

definition COL_APP_ID :: pystr where
  "COL_APP_ID = [30003, 35531, 32773, 12398, 23398, 31821, 30058, 21495]"

definition COL_APP_NAME :: pystr where
  "COL_APP_NAME = [30003, 35531, 32773, 12398, 27663, 21517]"

definition COL_APP_PHOTO :: pystr where
  "COL_APP_PHOTO = [30003, 35531, 32773, 12398, 23398, 29983, 35388, 20889, 30495]"

definition COL_HAS_PARTNER :: pystr where
  "COL_HAS_PARTNER = [20849, 21516, 21033, 29992, 32773, 12398, 26377, 28961]"

definition COL_PAR_ID :: pystr where
  "COL_PAR_ID = [20849, 21516, 21033, 29992, 32773, 12398, 23398, 31821, 30058, 21495]"

definition COL_PAR_NAME :: pystr where
  "COL_PAR_NAME = [20849, 21516, 21033, 29992, 32773, 12398, 27663, 21517]"

definition COL_PAR_PHOTO :: pystr where
  "COL_PAR_PHOTO =
     [20849, 21516, 21033, 29992, 32773, 12398, 23398, 29983, 35388, 20889, 30495]"

definition COL_FLOOR_NO_PARTNER :: pystr where
  "COL_FLOOR_NO_PARTNER = [38542, 25968, 24076, 26395, 36984, 25246, 65288, 20849, 21516,
     21033, 29992, 32773, 12394, 12375, 65289]"

definition COL_FLOOR_WITH_PARTNER :: pystr where
  "COL_FLOOR_WITH_PARTNER = [38542, 25968, 24076, 26395, 36984, 25246, 65288, 20849, 21516,
     21033, 29992, 32773, 12354, 12426, 65289]"

definition APP_COLUMNS :: "pystr list" where
  "APP_COLUMNS = [COL_TIMESTAMP, COL_EMAIL, COL_CONSENT, COL_APP_ID, COL_APP_NAME,
     COL_APP_PHOTO, COL_HAS_PARTNER, COL_PAR_ID, COL_PAR_NAME, COL_FLOOR_NO_PARTNER,
     COL_FLOOR_WITH_PARTNER]"

definition PAR_COLUMNS :: "pystr list" where
  "PAR_COLUMNS = [COL_TIMESTAMP, COL_EMAIL, COL_CONSENT, COL_PAR_ID, COL_PAR_NAME,
     COL_PAR_PHOTO]"

text \<open>The unit suffix of a floor choice is the single character U+968E ("floor").\<close>

definition FLOOR_SUFFIX :: nat where
  "FLOOR_SUFFIX = 38542"

definition endswith_char :: "pystr \<Rightarrow> nat \<Rightarrow> bool" where
  "endswith_char v c = (v \<noteq> [] \<and> last v = c)"

text \<open>\<open>value.replace(c, "")\<close> for a one-character \<open>c\<close> removes every occurrence.\<close>

definition replace_char_empty :: "pystr \<Rightarrow> nat \<Rightarrow> pystr" where
  "replace_char_empty v c = filter (\<lambda>x. x \<noteq> c) v"

definition parse_floor :: "raw_row \<Rightarrow> int option" where
  "parse_floor r =
     (let a = strip (row_get r COL_FLOOR_NO_PARTNER []);
          b = strip (row_get r COL_FLOOR_WITH_PARTNER [])
      in if (a \<noteq> [] \<and> b \<noteq> []) \<or> (a = [] \<and> b = []) then None
         else let v = (if a \<noteq> [] then a else b);
                  v' = (if endswith_char v FLOOR_SUFFIX
                        then replace_char_empty v FLOOR_SUFFIX else v)
              in case py_int v' of
                   None \<Rightarrow> None
                 | Some f \<Rightarrow> if f < 2 \<or> f > 6 then None else Some f)"

text \<open>
  The floor preference as the specification words it, for comparison with the code: of
  the one non-empty field, strip a trailing unit suffix, parse the remainder as an
  integer, keep it exactly when it lies in 2..6.
\<close>

definition spec_floorPreference :: "raw_row \<Rightarrow> int option" where
  "spec_floorPreference r =
     (let a = strip (row_get r COL_FLOOR_NO_PARTNER []);
          b = strip (row_get r COL_FLOOR_WITH_PARTNER [])
      in if (a \<noteq> [] \<and> b \<noteq> []) \<or> (a = [] \<and> b = []) then None
         else let v = (if a \<noteq> [] then a else b);
                  v' = (if endswith_char v FLOOR_SUFFIX then butlast v else v)
              in case py_int v' of
                   None \<Rightarrow> None
                 | Some f \<Rightarrow> if 2 \<le> f \<and> f \<le> 6 then Some f else None)"

section \<open>Timestamps and terms\<close>

text \<open>
  A naive \<open>datetime\<close> without microseconds (the format of \<open>parse_timestamp\<close> has none):
  year, month, day, hour, minute, second. Python compares datetimes field by field in
  this order, which is the lexicographic order on the tuple.
\<close>

type_synonym datetime = "int \<times> int \<times> int \<times> int \<times> int \<times> int"

datatype py_error = ValueError | KeyError | AttributeError | SystemExit

definition year :: "datetime \<Rightarrow> int" where
  "year ts = fst ts"

definition is_leap :: "int \<Rightarrow> bool" where
  "is_leap y = (y mod 4 = 0 \<and> (y mod 100 \<noteq> 0 \<or> y mod 400 = 0))"

definition days_in_month :: "int \<Rightarrow> int \<Rightarrow> int" where
  "days_in_month y m =
     (if m = 2 \<and> is_leap y then 29
      else [31, 28, 31, 30, 31, 30, 31, 31, 30, 31, 30, 31] ! nat (m - 1))"

definition days_before_year :: "int \<Rightarrow> int" where
  "days_before_year y = (let y1 = y - 1 in y1 * 365 + y1 div 4 - y1 div 100 + y1 div 400)"

definition days_before_month :: "int \<Rightarrow> int \<Rightarrow> int" where
  "days_before_month y m =
     [0, 31, 59, 90, 120, 151, 181, 212, 243, 273, 304, 334] ! nat (m - 1)
       + (if m > 2 \<and> is_leap y then 1 else 0)"

definition valid_datetime :: "datetime \<Rightarrow> bool" where
  "valid_datetime ts =
     (case ts of (y, m, d, hh, mm, ss) \<Rightarrow>
        1 \<le> y \<and> y \<le> 9999 \<and> 1 \<le> m \<and> m \<le> 12 \<and> 1 \<le> d \<and> d \<le> days_in_month y m \<and>
        0 \<le> hh \<and> hh \<le> 23 \<and> 0 \<le> mm \<and> mm \<le> 59 \<and> 0 \<le> ss \<and> ss \<le> 59)"

text \<open>The constructor \<open>datetime(y, m, d, hh, mm, ss)\<close> raises \<open>ValueError\<close> out of range.\<close>

definition datetime_new :: "int \<Rightarrow> int \<Rightarrow> int \<Rightarrow> int \<Rightarrow> int \<Rightarrow> int \<Rightarrow> py_error + datetime" where
  "datetime_new y m d hh mm ss =
     (if valid_datetime (y, m, d, hh, mm, ss) then Inr (y, m, d, hh, mm, ss)
      else Inl ValueError)"

text \<open>Seconds since the start of day 0 of the proleptic Gregorian calendar.\<close>

definition to_seconds :: "datetime \<Rightarrow> int" where
  "to_seconds ts =
     (case ts of (y, m, d, hh, mm, ss) \<Rightarrow>
        (days_before_year y + days_before_month y m + d) * 86400 + hh * 3600 + mm * 60 + ss)"

text \<open>
  \<open>(ts - start).total_seconds()\<close> is a float holding an integer below \<open>2^53\<close>, so the
  float floor division by the week and the conversion by \<open>int\<close> are exact: the result
  is the integer floor division.
\<close>

definition term_index :: "datetime \<Rightarrow> datetime \<Rightarrow> int" where
  "term_index ts start = (to_seconds ts - to_seconds start) div (7 * 24 * 60 * 60)"

definition term_start_from_timestamp :: "datetime \<Rightarrow> py_error + datetime" where
  "term_start_from_timestamp ts =
     (case datetime_new (year ts) 4 1 0 0 0 of
        Inl e \<Rightarrow> Inl e
      | Inr start \<Rightarrow>
          if ts < start then datetime_new (year ts - 1) 4 1 0 0 0 else Inr start)"

section \<open>Submissions\<close>

text \<open>
  A record as \<open>csv.DictReader\<close> yields it (\<open>read_csv\<close>, lines 70-75). A line with fewer
  fields than the header has \<open>None\<close> in the missing columns, so the value of a column is
  a string or \<open>None\<close>: \<open>r k = Some None\<close> is a column holding \<open>None\<close>, and \<open>r k = None\<close> is
  a key that the record does not have. The fields of a line beyond the header are stored
  under the key \<open>None\<close>, which the program never reads.
\<close>

type_synonym csv_row = "pystr \<rightharpoonup> pystr option"

text \<open>\<open>row.get(k, "").strip()\<close>: the method call on \<open>None\<close> raises \<open>AttributeError\<close>.\<close>

definition get_strip :: "csv_row \<Rightarrow> pystr \<Rightarrow> py_error + pystr" where
  "get_strip r k =
     (case r k of
        None \<Rightarrow> Inr (strip [])
      | Some None \<Rightarrow> Inl AttributeError
      | Some (Some v) \<Rightarrow> Inr (strip v))"

text \<open>The columns of a record that hold a string.\<close>

definition str_fields :: "csv_row \<Rightarrow> raw_row" where
  "str_fields r k = (case r k of None \<Rightarrow> None | Some None \<Rightarrow> None | Some (Some v) \<Rightarrow> Some v)"

text \<open>
  The call \<open>parse_floor(row)\<close> on such a record: lines 84-85 strip the two floor columns
  before anything else, which raises \<open>AttributeError\<close> when one of them holds \<open>None\<close>;
  otherwise both are strings or absent and the function proceeds as above.
\<close>

definition parse_floor_csv :: "csv_row \<Rightarrow> py_error + int option" where
  "parse_floor_csv r =
     (if r COL_FLOOR_NO_PARTNER = Some None \<or> r COL_FLOOR_WITH_PARTNER = Some None
      then Inl AttributeError
      else Inr (parse_floor (str_fields r)))"

text \<open>
  The dataclass \<open>Submission\<close>. The field \<open>term\<close> is named \<open>term_idx\<close> here. The
  outcome \<open>error\<close> is an optional string, as in the source; the four codes are the
  strings below.
\<close>

record submission =
  role :: pystr
  row_index :: int
  row :: csv_row
  timestamp :: datetime
  term_idx :: int
  person_id :: pystr
  person_name :: pystr
  photo :: pystr
  consent :: pystr
  partner_id :: "pystr option"
  partner_name :: "pystr option"
  has_partner :: "pystr option"
  floor :: "int option"
  error :: "pystr option"

definition E1 :: pystr where "E1 = ascii ''E1''"
definition E2 :: pystr where "E2 = ascii ''E2''"
definition E3 :: pystr where "E3 = ascii ''E3''"
definition S0 :: pystr where "S0 = ascii ''S0''"

definition ROLE_APP :: pystr where "ROLE_APP = ascii ''app''"
definition ROLE_PAR :: pystr where "ROLE_PAR = ascii ''par''"

definition CONSENT_AGREE :: pystr where
  "CONSENT_AGREE = [21033, 29992, 35215, 32004, 12395, 21516, 24847, 12377, 12427]"

definition PHOTO_ACCEPT :: pystr where
  "PHOTO_ACCEPT = ascii ''accept''"

definition WITH_PARTNER :: pystr where
  "WITH_PARTNER = [20849, 21516, 21033, 29992, 32773, 12354, 12426]"

definition WITHOUT_PARTNER :: pystr where
  "WITHOUT_PARTNER = [20849, 21516, 21033, 29992, 32773, 12394, 12375, 32, 40, 50, 38542,
     12539, 51, 38542, 12398, 12525, 12483, 12459, 12540, 12399, 20351, 29992, 12391, 12365,
     12414, 12379, 12435, 41]"

text \<open>
  \<open>build_submissions\<close>. \<open>datetime.strptime\<close> with the fixed format is a parameter
  \<open>strptime\<close> of the model (\<open>None\<close> where it raises \<open>ValueError\<close>); \<open>row[k]\<close> on a
  missing key raises \<open>KeyError\<close>, and \<open>.strip()\<close> on a column holding \<open>None\<close> raises
  \<open>AttributeError\<close>. The arguments of the constructor are evaluated in the order in which
  they are written; the first exception ends the loop.
\<close>

definition build_app :: "(pystr \<Rightarrow> datetime option) \<Rightarrow> datetime \<Rightarrow> int \<Rightarrow> csv_row
    \<Rightarrow> py_error + submission" where
  "build_app strptime start i r =
     (case r COL_TIMESTAMP of
        None \<Rightarrow> Inl KeyError
      | Some None \<Rightarrow> Inl AttributeError
      | Some (Some v) \<Rightarrow>
     (case strptime (strip v) of
        None \<Rightarrow> Inl ValueError
      | Some ts \<Rightarrow>
     (case get_strip r COL_APP_ID of Inl e \<Rightarrow> Inl e | Inr pid \<Rightarrow>
     (case get_strip r COL_APP_NAME of Inl e \<Rightarrow> Inl e | Inr pname \<Rightarrow>
     (case get_strip r COL_APP_PHOTO of Inl e \<Rightarrow> Inl e | Inr ph \<Rightarrow>
     (case get_strip r COL_CONSENT of Inl e \<Rightarrow> Inl e | Inr co \<Rightarrow>
     (case get_strip r COL_PAR_ID of Inl e \<Rightarrow> Inl e | Inr qid \<Rightarrow>
     (case get_strip r COL_PAR_NAME of Inl e \<Rightarrow> Inl e | Inr qname \<Rightarrow>
     (case get_strip r COL_HAS_PARTNER of Inl e \<Rightarrow> Inl e | Inr hp \<Rightarrow>
     (case parse_floor_csv r of Inl e \<Rightarrow> Inl e | Inr fl \<Rightarrow>
        Inr \<lparr>role = ROLE_APP, row_index = i, row = r, timestamp = ts,
             term_idx = term_index ts start,
             person_id = pid, person_name = pname, photo = ph, consent = co,
             partner_id = Some qid, partner_name = Some qname, has_partner = Some hp,
             floor = fl, error = None\<rparr>))))))))))"

definition build_par :: "(pystr \<Rightarrow> datetime option) \<Rightarrow> datetime \<Rightarrow> int \<Rightarrow> csv_row
    \<Rightarrow> py_error + submission" where
  "build_par strptime start i r =
     (case r COL_TIMESTAMP of
        None \<Rightarrow> Inl KeyError
      | Some None \<Rightarrow> Inl AttributeError
      | Some (Some v) \<Rightarrow>
     (case strptime (strip v) of
        None \<Rightarrow> Inl ValueError
      | Some ts \<Rightarrow>
     (case get_strip r COL_PAR_ID of Inl e \<Rightarrow> Inl e | Inr pid \<Rightarrow>
     (case get_strip r COL_PAR_NAME of Inl e \<Rightarrow> Inl e | Inr pname \<Rightarrow>
     (case get_strip r COL_PAR_PHOTO of Inl e \<Rightarrow> Inl e | Inr ph \<Rightarrow>
     (case get_strip r COL_CONSENT of Inl e \<Rightarrow> Inl e | Inr co \<Rightarrow>
        Inr \<lparr>role = ROLE_PAR, row_index = i, row = r, timestamp = ts,
             term_idx = term_index ts start,
             person_id = pid, person_name = pname, photo = ph, consent = co,
             partner_id = None, partner_name = None, has_partner = None,
             floor = None, error = None\<rparr>))))))"

fun build_rows :: "(int \<Rightarrow> csv_row \<Rightarrow> py_error + submission) \<Rightarrow> int \<Rightarrow> csv_row list
    \<Rightarrow> py_error + submission list" where
  "build_rows f i [] = Inr []"
| "build_rows f i (r # rs) =
     (case f i r of
        Inl e \<Rightarrow> Inl e
      | Inr sub \<Rightarrow> (case build_rows f (i + 1) rs of
                     Inl e \<Rightarrow> Inl e
                   | Inr subs \<Rightarrow> Inr (sub # subs)))"

definition build_submissions :: "(pystr \<Rightarrow> datetime option) \<Rightarrow> csv_row list \<Rightarrow> csv_row list
    \<Rightarrow> datetime \<Rightarrow> py_error + submission list \<times> submission list" where
  "build_submissions strptime app_rows par_rows start =
     (case build_rows (build_app strptime start) 0 app_rows of
        Inl e \<Rightarrow> Inl e
      | Inr apps \<Rightarrow>
          (case build_rows (build_par strptime start) 0 par_rows of
             Inl e \<Rightarrow> Inl e
           | Inr pars \<Rightarrow> Inr (apps, pars)))"

section \<open>Validation\<close>

text \<open>Truthiness of an \<open>Optional[str]\<close>: \<open>None\<close> and the empty string are falsy.\<close>

definition truthy :: "pystr option \<Rightarrow> bool" where
  "truthy v = (case v of None \<Rightarrow> False | Some s \<Rightarrow> s \<noteq> [])"

definition apply_input_validation :: "submission \<Rightarrow> pystr option" where
  "apply_input_validation sub =
     (if person_id sub = [] \<or> person_name sub = [] then Some E1
      else if \<not> is_valid_student_id (person_id sub) then Some E1
      else if consent sub \<noteq> CONSENT_AGREE then Some E1
      else if photo sub \<noteq> PHOTO_ACCEPT then Some E1
      else if role sub = ROLE_APP then
        (if has_partner sub \<noteq> Some WITH_PARTNER \<and> has_partner sub \<noteq> Some WITHOUT_PARTNER
           then Some E1
         else if floor sub = None then Some E1
         else if (floor sub = Some 2 \<or> floor sub = Some 3)
                   \<and> has_partner sub \<noteq> Some WITH_PARTNER then Some E1
         else if has_partner sub = Some WITH_PARTNER then
           (if \<not> truthy (partner_id sub) \<or> \<not> truthy (partner_name sub) then Some E1
            else if \<not> (case partner_id sub of None \<Rightarrow> False
                                             | Some p \<Rightarrow> is_valid_student_id p) then Some E1
            else None)
         else
           (if truthy (partner_id sub) \<or> truthy (partner_name sub) then Some E1 else None))
      else None)"

section \<open>Processing one term\<close>

text \<open>
  \<open>process_term\<close> mutates the \<open>error\<close> attribute of the submission objects it is given
  and only reads their other attributes. The objects are the positions of the list
  \<open>apps + pars\<close>; every list of submissions that the source derives from it
  (\<open>candidates\<close>, \<open>kept\<close>, \<open>dropped\<close>, the dictionary values) is a list of positions,
  so that an assignment through any of them is seen through all of them. The state of
  the function is the \<open>error\<close> attribute of every object and the set
  \<open>ineligible_ids\<close>, which the caller shares with it.
\<close>

record pstate =
  err :: "nat \<Rightarrow> pystr option"
  ineligible_ids :: "pystr set"

type_synonym alloc_row = "pystr \<times> pystr \<times> pystr \<times> pystr \<times> int"

definition set_error :: "nat \<Rightarrow> pystr option \<Rightarrow> pstate \<Rightarrow> pstate" where
  "set_error i e st = st\<lparr>err := (err st)(i := e)\<rparr>"

text \<open>Lines 215-216: every submission is validated.\<close>

definition validate_all :: "submission list \<Rightarrow> pstate \<Rightarrow> pstate" where
  "validate_all subs st =
     fold (\<lambda>i. set_error i (apply_input_validation (subs ! i))) [0..<length subs] st"

text \<open>Lines 219-223: an applicant with a partner needs a partner form in this term.\<close>

definition partner_form_check :: "submission list \<Rightarrow> nat \<Rightarrow> pstate \<Rightarrow> pstate" where
  "partner_form_check subs na st =
     (let all_partner_ids = set (filter (\<lambda>p. p \<noteq> []) (map person_id (drop na subs)))
      in fold (\<lambda>i st.
           if err st i = None \<and> has_partner (subs ! i) = Some WITH_PARTNER
           then (if partner_id (subs ! i) \<notin> Some ` all_partner_ids
                 then set_error i (Some E1) st else st)
           else st) [0..<na] st)"

text \<open>Lines 226-228: a clean submission of an ineligible person gets E2.\<close>

definition apply_e2 :: "submission list \<Rightarrow> pstate \<Rightarrow> pstate" where
  "apply_e2 subs st =
     fold (\<lambda>i st.
        if err st i = None \<and> person_id (subs ! i) \<in> ineligible_ids st
        then set_error i (Some E2) st else st) [0..<length subs] st"

definition clean :: "pstate \<Rightarrow> nat list \<Rightarrow> nat list" where
  "clean st xs = filter (\<lambda>i. err st i = None) xs"

text \<open>
  A dictionary of lists filled by \<open>d.setdefault(k, []).append(v)\<close>: an association list
  in insertion order of the keys, which is the order in which \<open>d.items()\<close> iterates.
\<close>

fun setdefault_append :: "'k \<Rightarrow> 'v \<Rightarrow> ('k \<times> 'v list) list \<Rightarrow> ('k \<times> 'v list) list" where
  "setdefault_append k v [] = [(k, [v])]"
| "setdefault_append k v ((k', vs) # d) =
     (if k = k' then (k', vs @ [v]) # d else (k', vs) # setdefault_append k v d)"

definition group_by :: "('v \<Rightarrow> 'k) \<Rightarrow> 'v list \<Rightarrow> ('k \<times> 'v list) list" where
  "group_by f xs = fold (\<lambda>x d. setdefault_append (f x) x d) xs []"

text \<open>The sort key \<open>(s.timestamp, s.row_index)\<close>; \<open>sorted\<close> and \<open>list.sort\<close> are stable.\<close>

definition order_key :: "submission list \<Rightarrow> nat \<Rightarrow> datetime \<times> int" where
  "order_key subs i = (timestamp (subs ! i), row_index (subs ! i))"

text \<open>
  \<open>choose_latest_by_person\<close>. Every list in \<open>by_person\<close> holds at least one element, so
  \<open>items_sorted[-1]\<close> does not raise; this is lemma \<open>group_by_nonempty\<close>.
\<close>

definition choose_latest_by_person :: "submission list \<Rightarrow> nat list \<Rightarrow> nat list \<times> nat list" where
  "choose_latest_by_person subs cands =
     (let by_person = group_by (\<lambda>i. person_id (subs ! i)) cands
      in fold (\<lambda>(pid, items) (kept, dropped).
                 let items_sorted = sort_key (order_key subs) items
                 in (kept @ [last items_sorted], dropped @ butlast items_sorted))
              by_person ([], []))"

definition set_errors :: "nat list \<Rightarrow> pystr \<Rightarrow> pstate \<Rightarrow> pstate" where
  "set_errors xs c st = fold (\<lambda>i. set_error i (Some c)) xs st"

text \<open>Lines 231-236: rule A, returning the state and the list \<open>kept\<close>.\<close>

definition dedup :: "submission list \<Rightarrow> pstate \<Rightarrow> pstate \<times> nat list" where
  "dedup subs st =
     (let candidates = clean st [0..<length subs];
          (kept, dropped) = choose_latest_by_person subs candidates
      in (set_errors dropped E3 st, kept))"

text \<open>Line 243: the dictionary comprehension; a later entry replaces an earlier one.\<close>

definition partner_index :: "submission list \<Rightarrow> nat list \<Rightarrow> (pystr \<rightharpoonup> nat)" where
  "partner_index subs par_candidates =
     fold (\<lambda>i m. m(person_id (subs ! i) \<mapsto> i)) par_candidates Map.empty"

text \<open>Lookup with the applicant's \<open>partner_id\<close>, which may be \<open>None\<close> (never a key).\<close>

definition dict_get :: "(pystr \<rightharpoonup> nat) \<Rightarrow> pystr option \<Rightarrow> nat option" where
  "dict_get m k = (case k of None \<Rightarrow> None | Some p \<Rightarrow> m p)"

text \<open>Lines 247-250.\<close>

definition reject_missing_partner :: "submission list \<Rightarrow> nat list \<Rightarrow> (pystr \<rightharpoonup> nat)
    \<Rightarrow> pstate \<Rightarrow> pstate" where
  "reject_missing_partner subs app_candidates partner_by_id st =
     fold (\<lambda>i st.
        if has_partner (subs ! i) = Some WITH_PARTNER
        then (if dict_get partner_by_id (partner_id (subs ! i)) = None
              then set_error i (Some E3) st else st)
        else st) app_candidates st"

text \<open>Lines 253-258: the applicants still clean that need a partner, by partner id.\<close>

definition applicants_by_partner :: "submission list \<Rightarrow> nat list \<Rightarrow> pstate
    \<Rightarrow> (pystr option \<times> nat list) list" where
  "applicants_by_partner subs app_candidates st =
     group_by (\<lambda>i. partner_id (subs ! i))
       (filter (\<lambda>i. err st i = None \<and> has_partner (subs ! i) = Some WITH_PARTNER)
          app_candidates)"

text \<open>Lines 260-267: in a group of several, all but the first in sorted order get E3.\<close>

definition resolve_conflicts :: "submission list \<Rightarrow> nat list \<Rightarrow> pstate \<Rightarrow> pstate" where
  "resolve_conflicts subs app_candidates st =
     fold (\<lambda>(partner, apps_for_partner) st.
        if length apps_for_partner \<le> 1 then st
        else set_errors (tl (sort_key (order_key subs) apps_for_partner)) E3 st)
       (applicants_by_partner subs app_candidates st) st"

definition floor_or_0 :: "int option \<Rightarrow> int" where
  "floor_or_0 f = (case f of None \<Rightarrow> 0 | Some n \<Rightarrow> if n = 0 then 0 else n)"

text \<open>Lines 270-299: the loop that emits the allocation rows.\<close>

definition pair_step :: "submission list \<Rightarrow> (pystr \<rightharpoonup> nat) \<Rightarrow> nat
    \<Rightarrow> pstate \<times> pystr set \<times> alloc_row list \<Rightarrow> pstate \<times> pystr set \<times> alloc_row list" where
  "pair_step subs partner_by_id i acc =
     (case acc of (st, paired_partner_ids, valid_rows) \<Rightarrow>
        if err st i \<noteq> None then acc
        else if has_partner (subs ! i) = Some WITH_PARTNER then
          (case dict_get partner_by_id (partner_id (subs ! i)) of
             None \<Rightarrow> (set_error i (Some E3) st, paired_partner_ids, valid_rows)
           | Some j \<Rightarrow>
               if err st j \<noteq> None
               then (set_error i (Some E3) st, paired_partner_ids, valid_rows)
               else (st, insert (person_id (subs ! j)) paired_partner_ids,
                     valid_rows @ [(person_id (subs ! i), person_name (subs ! i),
                                    person_id (subs ! j), person_name (subs ! j),
                                    floor_or_0 (floor (subs ! i)))]))
        else (st, paired_partner_ids,
              valid_rows @ [(person_id (subs ! i), person_name (subs ! i), [], [],
                             floor_or_0 (floor (subs ! i)))]))"

definition make_pairs :: "submission list \<Rightarrow> nat list \<Rightarrow> (pystr \<rightharpoonup> nat) \<Rightarrow> pstate
    \<Rightarrow> pstate \<times> pystr set \<times> alloc_row list" where
  "make_pairs subs app_candidates partner_by_id st =
     fold (pair_step subs partner_by_id) app_candidates (st, {}, [])"

text \<open>Lines 302-304.\<close>

definition reject_unpaired :: "submission list \<Rightarrow> nat list \<Rightarrow> pystr set \<Rightarrow> pstate \<Rightarrow> pstate" where
  "reject_unpaired subs par_candidates paired_partner_ids st =
     fold (\<lambda>i st.
        if err st i = None \<and> person_id (subs ! i) \<notin> paired_partner_ids
        then set_error i (Some E3) st else st) par_candidates st"

text \<open>Lines 307-318: the success codes, for the applicants and then for the partners.\<close>

definition set_success :: "submission list \<Rightarrow> nat list \<Rightarrow> pystr set \<Rightarrow> pstate \<Rightarrow> pstate" where
  "set_success subs xs valid_ids st =
     fold (\<lambda>i st.
        if err st i = None \<and> person_id (subs ! i) \<in> valid_ids then set_error i (Some S0) st
        else if err st i = None then set_error i (Some E3) st
        else st) xs st"

definition valid_app_ids :: "alloc_row list \<Rightarrow> pystr set" where
  "valid_app_ids valid_rows = set (map fst valid_rows)"

definition valid_par_ids :: "alloc_row list \<Rightarrow> pystr set" where
  "valid_par_ids valid_rows =
     set (filter (\<lambda>p. p \<noteq> []) (map (\<lambda>r. fst (snd (snd r))) valid_rows))"

text \<open>
  The body of \<open>process_term\<close> is the sequence of the passes above. Each prefix of the
  sequence is named, so that the state between two passes can be spoken about;
  \<open>subs\<close> is \<open>apps + pars\<close>, \<open>na\<close> the length of \<open>apps\<close>, \<open>st\<close> the state at entry.
\<close>

definition after_validation :: "submission list \<Rightarrow> nat \<Rightarrow> pstate \<Rightarrow> pstate" where
  "after_validation subs na st = partner_form_check subs na (validate_all subs st)"

definition after_ineligible :: "submission list \<Rightarrow> nat \<Rightarrow> pstate \<Rightarrow> pstate" where
  "after_ineligible subs na st = apply_e2 subs (after_validation subs na st)"

definition after_dedup :: "submission list \<Rightarrow> nat \<Rightarrow> pstate \<Rightarrow> pstate" where
  "after_dedup subs na st = fst (dedup subs (after_ineligible subs na st))"

definition kept_list :: "submission list \<Rightarrow> nat \<Rightarrow> pstate \<Rightarrow> nat list" where
  "kept_list subs na st = snd (dedup subs (after_ineligible subs na st))"

text \<open>Lines 238-240.\<close>

definition candidates :: "submission list \<Rightarrow> nat \<Rightarrow> pstate \<Rightarrow> nat list" where
  "candidates subs na st = clean (after_dedup subs na st) (kept_list subs na st)"

definition app_candidates :: "submission list \<Rightarrow> nat \<Rightarrow> pstate \<Rightarrow> nat list" where
  "app_candidates subs na st =
     filter (\<lambda>i. role (subs ! i) = ROLE_APP) (candidates subs na st)"

definition par_candidates :: "submission list \<Rightarrow> nat \<Rightarrow> pstate \<Rightarrow> nat list" where
  "par_candidates subs na st =
     filter (\<lambda>i. role (subs ! i) = ROLE_PAR) (candidates subs na st)"

definition partner_by_id :: "submission list \<Rightarrow> nat \<Rightarrow> pstate \<Rightarrow> (pystr \<rightharpoonup> nat)" where
  "partner_by_id subs na st = partner_index subs (par_candidates subs na st)"

definition after_missing :: "submission list \<Rightarrow> nat \<Rightarrow> pstate \<Rightarrow> pstate" where
  "after_missing subs na st =
     reject_missing_partner subs (app_candidates subs na st) (partner_by_id subs na st)
       (after_dedup subs na st)"

definition after_conflicts :: "submission list \<Rightarrow> nat \<Rightarrow> pstate \<Rightarrow> pstate" where
  "after_conflicts subs na st =
     resolve_conflicts subs (app_candidates subs na st) (after_missing subs na st)"

definition pairs_result :: "submission list \<Rightarrow> nat \<Rightarrow> pstate
    \<Rightarrow> pstate \<times> pystr set \<times> alloc_row list" where
  "pairs_result subs na st =
     make_pairs subs (app_candidates subs na st) (partner_by_id subs na st)
       (after_conflicts subs na st)"

definition valid_rows_of :: "submission list \<Rightarrow> nat \<Rightarrow> pstate \<Rightarrow> alloc_row list" where
  "valid_rows_of subs na st = snd (snd (pairs_result subs na st))"

definition after_unpaired :: "submission list \<Rightarrow> nat \<Rightarrow> pstate \<Rightarrow> pstate" where
  "after_unpaired subs na st =
     reject_unpaired subs (par_candidates subs na st) (fst (snd (pairs_result subs na st)))
       (fst (pairs_result subs na st))"

definition final_state :: "submission list \<Rightarrow> nat \<Rightarrow> pstate \<Rightarrow> pstate" where
  "final_state subs na st =
     set_success subs [na..<length subs] (valid_par_ids (valid_rows_of subs na st))
       (set_success subs [0..<na] (valid_app_ids (valid_rows_of subs na st))
          (after_unpaired subs na st))"

definition initial_state :: "submission list \<Rightarrow> pystr set \<Rightarrow> pstate" where
  "initial_state subs ids = \<lparr>err = (\<lambda>i. error (subs ! i)), ineligible_ids = ids\<rparr>"

text \<open>
  \<open>process_term\<close> returns the two lists it was given, with the \<open>error\<close> attributes as
  the passes left them, and the rows; the model also returns the shared set
  \<open>ineligible_ids\<close> as the function leaves it.
\<close>

definition process_term :: "int \<Rightarrow> submission list \<Rightarrow> submission list \<Rightarrow> pystr set
    \<Rightarrow> submission list \<times> submission list \<times> alloc_row list \<times> pystr set" where
  "process_term term apps pars ids =
     (let subs = apps @ pars;
          na = length apps;
          st = initial_state subs ids;
          fin = final_state subs na st
      in (map (\<lambda>i. (subs ! i)\<lparr>error := err fin i\<rparr>) [0..<na],
          map (\<lambda>i. (subs ! i)\<lparr>error := err fin i\<rparr>) [na..<length subs],
          valid_rows_of subs na st,
          ineligible_ids fin))"

section \<open>The run over all terms\<close>

text \<open>Lines 391-394: the ids of a term's rows enter the set.\<close>

definition add_ineligible :: "alloc_row list \<Rightarrow> pystr set \<Rightarrow> pystr set" where
  "add_ineligible valid_rows ids =
     fold (\<lambda>(app_id, app_name, par_id, par_name, fl) ids.
             if par_id \<noteq> [] then insert par_id (insert app_id ids) else insert app_id ids)
          valid_rows ids"

type_synonym term_output = "submission list \<times> submission list \<times> alloc_row list"

text \<open>
  Lines 382-394, for the terms \<open>ts\<close> in order: the outputs of every term and the set at
  the end. Writing the files is outside the model.
\<close>

fun run_terms :: "int list \<Rightarrow> submission list \<Rightarrow> submission list \<Rightarrow> pystr set
    \<Rightarrow> term_output list \<times> pystr set" where
  "run_terms [] apps pars ids = ([], ids)"
| "run_terms (t # ts) apps pars ids =
     (case process_term t (filter (\<lambda>s. term_idx s = t) apps)
                          (filter (\<lambda>s. term_idx s = t) pars) ids of
        (processed_apps, processed_pars, valid_rows, ids1) \<Rightarrow>
          (case run_terms ts apps pars (add_ineligible valid_rows ids1) of
             (outs, ids2) \<Rightarrow> ((processed_apps, processed_pars, valid_rows) # outs, ids2)))"

text \<open>Line 369: the timestamps of all records, those of the applicants first.\<close>

fun parse_timestamps :: "(pystr \<Rightarrow> datetime option) \<Rightarrow> csv_row list
    \<Rightarrow> py_error + datetime list" where
  "parse_timestamps strptime [] = Inr []"
| "parse_timestamps strptime (r # rs) =
     (case r COL_TIMESTAMP of
        None \<Rightarrow> Inl KeyError
      | Some None \<Rightarrow> Inl AttributeError
      | Some (Some v) \<Rightarrow>
          (case strptime (strip v) of
             None \<Rightarrow> Inl ValueError
           | Some ts \<Rightarrow> (case parse_timestamps strptime rs of
                          Inl e \<Rightarrow> Inl e
                        | Inr tss \<Rightarrow> Inr (ts # tss))))"

text \<open>Lines 369-375: the anchor and the submissions with their terms.\<close>

definition segment :: "(pystr \<Rightarrow> datetime option) \<Rightarrow> csv_row list \<Rightarrow> csv_row list
    \<Rightarrow> py_error + datetime \<times> submission list \<times> submission list" where
  "segment strptime app_rows par_rows =
     (case parse_timestamps strptime (app_rows @ par_rows) of
        Inl e \<Rightarrow> Inl e
      | Inr all_ts \<Rightarrow>
          if all_ts = [] then Inl SystemExit
          else (case term_start_from_timestamp (Min (set all_ts)) of
                  Inl e \<Rightarrow> Inl e
                | Inr start \<Rightarrow>
                    (case build_submissions strptime app_rows par_rows start of
                       Inl e \<Rightarrow> Inl e
                     | Inr (apps, pars) \<Rightarrow> Inr (start, apps, pars))))"

text \<open>\<open>main\<close>, from the parsed rows of the two files to the outputs of every term.\<close>

definition main :: "(pystr \<Rightarrow> datetime option) \<Rightarrow> csv_row list \<Rightarrow> csv_row list
    \<Rightarrow> py_error + term_output list" where
  "main strptime app_rows par_rows =
     (case segment strptime app_rows par_rows of
        Inl e \<Rightarrow> Inl e
      | Inr (start, apps, pars) \<Rightarrow>
          (let max_term = Max (set (map term_idx (apps @ pars)))
           in Inr (fst (run_terms [0..max_term] apps pars {}))))"

section \<open>Example inputs\<close>

text \<open>Concrete inputs on which the theorems below are instantiated.\<close>

definition demo_strptime :: "pystr \<Rightarrow> datetime option" where
  "demo_strptime v = (if v = ascii ''2024-04-15 00:00:00'' then Some (2024, 4, 15, 0, 0, 0)
                      else if v = ascii ''2024-04-01 00:00:00'' then Some (2024, 4, 1, 0, 0, 0)
                      else None)"

definition demo_app_rows :: "csv_row list" where
  "demo_app_rows = [[COL_TIMESTAMP \<mapsto> Some (ascii ''2024-04-15 00:00:00'')]]"

definition demo_par_rows :: "csv_row list" where
  "demo_par_rows = [[COL_TIMESTAMP \<mapsto> Some (ascii ''2024-04-01 00:00:00'')]]"

section \<open>Notions used in the statements\<close>

text \<open>
  Groups of submissions by person and by named partner, the first and the last of a group
  in the order of the sort key, and the row that an applicant yields.
\<close>

definition person_group :: "submission list \<Rightarrow> nat list \<Rightarrow> nat \<Rightarrow> nat list" where
  "person_group subs cands i =
     filter (\<lambda>j. person_id (subs ! j) = person_id (subs ! i)) cands"

definition latest_of :: "submission list \<Rightarrow> nat list \<Rightarrow> nat" where
  "latest_of subs g = last (sort_key (order_key subs) g)"

text \<open>The submissions that are clean after the ineligibility filter.\<close>

definition clean_candidates :: "submission list \<Rightarrow> nat \<Rightarrow> pstate \<Rightarrow> nat list" where
  "clean_candidates subs na st = clean (after_ineligible subs na st) [0..<length subs]"

definition partner_group :: "submission list \<Rightarrow> nat list \<Rightarrow> nat \<Rightarrow> nat list" where
  "partner_group subs xs i =
     filter (\<lambda>j. partner_id (subs ! j) = partner_id (subs ! i)) xs"

definition earliest_of :: "submission list \<Rightarrow> nat list \<Rightarrow> nat" where
  "earliest_of subs g = hd (sort_key (order_key subs) g)"

text \<open>The applicant candidates that are clean in a state and need a partner.\<close>

definition claimants :: "submission list \<Rightarrow> nat list \<Rightarrow> pstate \<Rightarrow> nat list" where
  "claimants subs app_cands st =
     filter (\<lambda>i. err st i = None \<and> has_partner (subs ! i) = Some WITH_PARTNER) app_cands"

definition alloc_row_of :: "submission list \<Rightarrow> (pystr \<rightharpoonup> nat) \<Rightarrow> nat \<Rightarrow> alloc_row" where
  "alloc_row_of subs m i =
     (case (if has_partner (subs ! i) = Some WITH_PARTNER
            then dict_get m (partner_id (subs ! i)) else None) of
        Some j \<Rightarrow> (person_id (subs ! i), person_name (subs ! i),
                   person_id (subs ! j), person_name (subs ! j), floor_or_0 (floor (subs ! i)))
      | None \<Rightarrow> (person_id (subs ! i), person_name (subs ! i), [], [],
                 floor_or_0 (floor (subs ! i))))"

definition partner_of :: "submission list \<Rightarrow> (pystr \<rightharpoonup> nat) \<Rightarrow> nat \<Rightarrow> nat option" where
  "partner_of subs m i =
     (if has_partner (subs ! i) = Some WITH_PARTNER
      then dict_get m (partner_id (subs ! i)) else None)"

text \<open>The applicants that enter the conflict resolution.\<close>

definition conflict_claimants :: "submission list \<Rightarrow> nat \<Rightarrow> pstate \<Rightarrow> nat list" where
  "conflict_claimants subs na st =
     claimants subs (app_candidates subs na st) (after_missing subs na st)"

text \<open>The applicant candidates that are clean after the conflict resolution.\<close>

definition survivors :: "submission list \<Rightarrow> nat \<Rightarrow> pstate \<Rightarrow> nat list" where
  "survivors subs na st =
     filter (\<lambda>i. err (after_conflicts subs na st) i = None) (app_candidates subs na st)"

text \<open>The states after the passes of \<open>process_term\<close>, in the order of the passes.\<close>

definition pass_states :: "submission list \<Rightarrow> nat \<Rightarrow> pstate \<Rightarrow> pstate list" where
  "pass_states subs na st =
     [validate_all subs st,
      after_validation subs na st,
      after_ineligible subs na st,
      after_dedup subs na st,
      after_missing subs na st,
      after_conflicts subs na st,
      fst (pairs_result subs na st),
      after_unpaired subs na st,
      set_success subs [0..<na] (valid_app_ids (valid_rows_of subs na st))
        (after_unpaired subs na st),
      final_state subs na st]"

text \<open>The person ids of a list of rows: the applicant ids and the non-empty partner ids.\<close>

definition row_person_ids :: "alloc_row list \<Rightarrow> pystr set" where
  "row_person_ids valid_rows = valid_app_ids valid_rows \<union> valid_par_ids valid_rows"

text \<open>The set \<open>ineligible_ids\<close> as it stands when the \<open>k\<close>-th term of a run begins.\<close>

definition ineligible_before :: "int list \<Rightarrow> submission list \<Rightarrow> submission list \<Rightarrow> pystr set
    \<Rightarrow> nat \<Rightarrow> pystr set" where
  "ineligible_before ts apps pars ids k = snd (run_terms (take k ts) apps pars ids)"

text \<open>The submissions of a term, as \<open>main\<close> selects them.\<close>

definition of_term :: "int \<Rightarrow> submission list \<Rightarrow> submission list" where
  "of_term t subs = filter (\<lambda>s. term_idx s = t) subs"

text \<open>A valid applicant without partner, for floor 4, in term 0.\<close>

definition demo_solo :: submission where
  "demo_solo = \<lparr>role = ROLE_APP, row_index = 0, row = Map.empty,
     timestamp = (2024, 4, 1, 9, 0, 0), term_idx = 0,
     person_id = ascii ''4612345'', person_name = ascii ''Sato'',
     photo = PHOTO_ACCEPT, consent = CONSENT_AGREE,
     partner_id = Some [], partner_name = Some [], has_partner = Some WITHOUT_PARTNER,
     floor = Some 4, error = None\<rparr>"

text \<open>The same person again in term 1, once without the consent and once with it.\<close>

definition demo_late_invalid :: submission where
  "demo_late_invalid =
     demo_solo\<lparr>row_index := 1, timestamp := (2024, 4, 8, 9, 0, 0), term_idx := 1, consent := []\<rparr>"

definition demo_late_valid :: submission where
  "demo_late_valid =
     demo_solo\<lparr>row_index := 1, timestamp := (2024, 4, 8, 9, 0, 0), term_idx := 1\<rparr>"

text \<open>Two applicants naming the same partner, the first an hour earlier, and the partner.\<close>

definition demo_first :: submission where
  "demo_first = \<lparr>role = ROLE_APP, row_index = 0, row = Map.empty,
     timestamp = (2024, 4, 1, 9, 0, 0), term_idx = 0,
     person_id = ascii ''4612345'', person_name = ascii ''Sato'',
     photo = PHOTO_ACCEPT, consent = CONSENT_AGREE,
     partner_id = Some (ascii ''4611111''), partner_name = Some (ascii ''Abe''),
     has_partner = Some WITH_PARTNER, floor = Some 2, error = None\<rparr>"

definition demo_second :: submission where
  "demo_second = \<lparr>role = ROLE_APP, row_index = 1, row = Map.empty,
     timestamp = (2024, 4, 1, 10, 0, 0), term_idx = 0,
     person_id = ascii ''4622222'', person_name = ascii ''Kato'',
     photo = PHOTO_ACCEPT, consent = CONSENT_AGREE,
     partner_id = Some (ascii ''4611111''), partner_name = Some (ascii ''Abe''),
     has_partner = Some WITH_PARTNER, floor = Some 3, error = None\<rparr>"

definition demo_partner :: submission where
  "demo_partner = \<lparr>role = ROLE_PAR, row_index = 0, row = Map.empty,
     timestamp = (2024, 4, 1, 8, 0, 0), term_idx = 0,
     person_id = ascii ''4611111'', person_name = ascii ''Abe'',
     photo = PHOTO_ACCEPT, consent = CONSENT_AGREE,
     partner_id = None, partner_name = None, has_partner = None,
     floor = None, error = None\<rparr>"

text \<open>The applicant of \<open>demo_solo\<close> once more, with the same timestamp, one row later.\<close>

definition demo_again :: submission where
  "demo_again = demo_solo\<lparr>row_index := 1\<rparr>"

section \<open>The student-ID format\<close>

lemma is_decimal_iff: "is_decimal c \<longleftrightarrow> (\<exists>z\<in>set uni_zeros. z \<le> c \<and> c < z + 10)"
  unfolding is_decimal_def to_decimal_def
  by (auto simp: find_None_iff find_Some_iff split: option.splits)

lemma is_decimal_ascii: "48 \<le> c \<Longrightarrow> c \<le> 57 \<Longrightarrow> is_decimal c"
  unfolding is_decimal_iff uni_zeros_def by simp

lemma times_digit:
  "rmatch (Times k Digit) (n, s) =
     (if k \<le> length s \<and> list_all is_decimal (take k s) then [(n + k, drop k s)] else [])"
proof (induction k arbitrary: n s)
  case 0
  show ?case by simp
next
  case (Suc k)
  show ?case by (cases s) (simp_all add: Suc one_char_def)
qed

lemma body_15:
  "rmatch (Seq (Lit 49) (Seq (Lit 53) (Times 5 Digit))) (n, a # b # ds) =
     (if a = 49 \<and> b = 53 \<and> 5 \<le> length ds \<and> list_all is_decimal (take 5 ds)
      then [(n + 7, drop 5 ds)] else [])"
  by (auto simp: times_digit one_char_def)

lemma body_48:
  "rmatch (Seq (OneOf [52, 56]) (Seq (Range 49 54) (Times 5 Digit))) (n, a # b # ds) =
     (if (a = 52 \<or> a = 56) \<and> 49 \<le> b \<and> b \<le> 54 \<and> 5 \<le> length ds
         \<and> list_all is_decimal (take 5 ds)
      then [(n + 7, drop 5 ds)] else [])"
  by (auto simp: times_digit one_char_def)

lemma short_nomatch: "length s < 2 \<Longrightarrow> \<not> re_match STUDENT_ID_RE s"
  by (cases s; cases "tl s") (simp_all add: re_match_def STUDENT_ID_RE_def one_char_def)

lemma re_match_student_id:
  "re_match STUDENT_ID_RE (a # b # ds) \<longleftrightarrow>
     (a = 49 \<and> b = 53 \<or> (a = 52 \<or> a = 56) \<and> 49 \<le> b \<and> b \<le> 54) \<and>
     5 \<le> length ds \<and> list_all is_decimal (take 5 ds) \<and> (drop 5 ds = [] \<or> drop 5 ds = [10])"
proof -
  define r1 where "r1 = Seq (Lit 49) (Seq (Lit 53) (Times 5 Digit))"
  define r2 where "r2 = Seq (OneOf [52, 56]) (Seq (Range 49 54) (Times 5 Digit))"
  have b1: "rmatch r1 (0, a # b # ds) =
     (if a = 49 \<and> b = 53 \<and> 5 \<le> length ds \<and> list_all is_decimal (take 5 ds)
      then [(7, drop 5 ds)] else [])"
    unfolding r1_def body_15 by simp
  have b2: "rmatch r2 (0, a # b # ds) =
     (if (a = 52 \<or> a = 56) \<and> 49 \<le> b \<and> b \<le> 54 \<and> 5 \<le> length ds
         \<and> list_all is_decimal (take 5 ds)
      then [(7, drop 5 ds)] else [])"
    unfolding r2_def body_48 by simp
  have "rmatch STUDENT_ID_RE (0, a # b # ds) =
          concat (map (rmatch Eol) (rmatch r1 (0, a # b # ds) @ rmatch r2 (0, a # b # ds)))"
    unfolding STUDENT_ID_RE_def r1_def[symmetric] r2_def[symmetric] by simp
  then show ?thesis
    unfolding re_match_def b1 b2 by (auto split: if_splits)
qed

lemma tail_shape:
  "(5 \<le> length ds \<and> list_all is_decimal (take 5 ds) \<and> (drop 5 ds = [] \<or> drop 5 ds = [10]))
     \<longleftrightarrow> (\<exists>es. (ds = es \<or> ds = es @ [10]) \<and> length es = 5 \<and> list_all is_decimal es)"
  (is "?L = ?R")
proof
  assume ?L
  then have "(ds = take 5 ds \<or> ds = take 5 ds @ [10]) \<and> length (take 5 ds) = 5
               \<and> list_all is_decimal (take 5 ds)"
    by (metis append_take_drop_id append_Nil2 length_take min.absorb2)
  then show ?R by blast
next
  assume ?R
  then show ?L by auto
qed

text \<open>
  Claim C1, as the code has it: a string passes \<open>is_valid_student_id\<close> exactly when it
  consists of seven characters, namely 15 followed by five decimal digits, or 4 or 8
  followed by one of 1 to 6 and five decimal digits, optionally followed by one newline
  (code point 10) at the very end. The decimal digits are the Unicode decimal digits.
\<close>

theorem student_id_format:
  "is_valid_student_id s \<longleftrightarrow>
     (\<exists>a b ds. (s = a # b # ds \<or> s = a # b # ds @ [10]) \<and> length ds = 5
        \<and> list_all is_decimal ds
        \<and> (a = 49 \<and> b = 53 \<or> (a = 52 \<or> a = 56) \<and> 49 \<le> b \<and> b \<le> 54))"
proof (cases "length s < 2")
  case True
  then have "\<not> is_valid_student_id s"
    by (simp add: is_valid_student_id_def short_nomatch)
  moreover have "\<not> (\<exists>a b ds. (s = a # b # ds \<or> s = a # b # ds @ [10]))"
    using True by auto
  ultimately show ?thesis by blast
next
  case False
  then obtain a b ds where s: "s = a # b # ds"
    by (cases s; cases "tl s") auto
  show ?thesis
    unfolding is_valid_student_id_def s re_match_student_id tail_shape by auto
qed

theorem student_id_format_witness:
  "is_valid_student_id (ascii ''4612345'') \<and> \<not> is_valid_student_id (ascii ''461234'')"
  using student_id_format [of "ascii ''4612345''"] student_id_format [of "ascii ''461234''"]
  by (simp add: ascii_def is_decimal_ascii)

text \<open>
  The format as the specification words it differs from the code: a six-digit code
  beginning with 15 fits the words and is refused, and so is a six-digit code beginning
  with 5; the seven-digit codes that the code accepts do not fit the words.
\<close>

theorem student_id_format_counterexample:
  "spec_student_id (ascii ''150000'') \<and> \<not> is_valid_student_id (ascii ''150000'')
   \<and> spec_student_id (ascii ''510000'') \<and> \<not> is_valid_student_id (ascii ''510000'')
   \<and> is_valid_student_id (ascii ''8100000'') \<and> \<not> spec_student_id (ascii ''8100000'')"
  by (simp add: ascii_def spec_student_id_def is_valid_student_id_def re_match_student_id
        is_decimal_ascii)

section \<open>The floor preference\<close>

lemma filter_butlast_id:
  "v \<noteq> [] \<Longrightarrow> last v = c \<Longrightarrow> c \<notin> set (butlast v) \<Longrightarrow> filter (\<lambda>x. x \<noteq> c) v = butlast v"
proof -
  assume a: "v \<noteq> []" "last v = c" "c \<notin> set (butlast v)"
  then have "v = butlast v @ [c]" by (metis append_butlast_last_id)
  then have "filter (\<lambda>x. x \<noteq> c) v = filter (\<lambda>x. x \<noteq> c) (butlast v) @ filter (\<lambda>x. x \<noteq> c) [c]"
    by (metis filter_append)
  also have "\<dots> = butlast v" using a(3) by (auto simp: filter_id_conv)
  finally show ?thesis .
qed

lemma parse_floor_agrees:
  assumes "FLOOR_SUFFIX \<notin> set (butlast (strip (row_get r COL_FLOOR_NO_PARTNER [])))"
      and "FLOOR_SUFFIX \<notin> set (butlast (strip (row_get r COL_FLOOR_WITH_PARTNER [])))"
  shows "parse_floor r = spec_floorPreference r"
  using assms
  unfolding parse_floor_def spec_floorPreference_def Let_def endswith_char_def replace_char_empty_def
  by (auto simp: filter_butlast_id split: option.splits)

lemma parse_floor_range: "parse_floor r = Some f \<Longrightarrow> 2 \<le> f \<and> f \<le> 6"
  unfolding parse_floor_def Let_def by (auto split: option.splits if_splits)


lemma to_decimal_ascii: "48 \<le> c \<Longrightarrow> c \<le> 57 \<Longrightarrow> to_decimal c = Some (c - 48)"
  unfolding to_decimal_def uni_zeros_def by simp

lemma suffix_not_decimal: "\<not> is_decimal 38542"
  unfolding is_decimal_iff uni_zeros_def by simp

lemma not_space: "\<not> is_space 38542" "\<not> is_space 53"
  by (simp_all add: is_space_def)

lemma not_int_space: "\<not> int_space 38542" "\<not> int_space 53"
  by (simp_all add: int_space_def not_space)

lemma py_int_5: "py_int [53] = Some 5"
  by (simp add: py_int_def not_int_space is_decimal_ascii to_decimal_ascii
       digits_value_def int_max_str_digits_def)

lemma py_int_k5: "py_int [38542, 53] = None"
  by (simp add: py_int_def not_int_space suffix_not_decimal)

lemma strip_k5k: "strip [38542, 53, 38542] = [38542, 53, 38542]"
  by (simp add: strip_def not_space)

lemma strip_Nil: "strip [] = []"
  by (simp add: strip_def)

text \<open>
  Claim C7 at the value U+968E 5 U+968E: the value ends with the unit suffix, so the code
  removes every occurrence of the suffix and reads floor 5; stripping the trailing
  suffix, as the specification words it, leaves a string that is not an integer.
\<close>

theorem parse_floor_suffix_divergence: "parse_floor (Map.empty(COL_FLOOR_NO_PARTNER \<mapsto> [38542, 53, 38542])) = Some 5
  \<and> spec_floorPreference (Map.empty(COL_FLOOR_NO_PARTNER \<mapsto> [38542, 53, 38542])) = None"
  by (simp add: parse_floor_def spec_floorPreference_def row_get_def COL_FLOOR_NO_PARTNER_def
       COL_FLOOR_WITH_PARTNER_def strip_k5k endswith_char_def replace_char_empty_def
       FLOOR_SUFFIX_def py_int_5 py_int_k5 strip_Nil)

section \<open>The term segmenter\<close>

lemma april_valid: "1 \<le> y \<Longrightarrow> y \<le> 9999 \<Longrightarrow> valid_datetime (y, 4, 1, 0, 0, 0)"
  by (simp add: valid_datetime_def days_in_month_def)

lemma term_start_cases:
  assumes "valid_datetime ts"
  shows "term_start_from_timestamp ts =
           (if ts < (year ts, 4, 1, 0, 0, 0)
            then (if 2 \<le> year ts then Inr (year ts - 1, 4, 1, 0, 0, 0) else Inl ValueError)
            else Inr (year ts, 4, 1, 0, 0, 0))"
proof -
  obtain y m d hh mm ss where ts: "ts = (y, m, d, hh, mm, ss)" by (cases ts) auto
  from assms have y: "1 \<le> y" "y \<le> 9999" by (simp_all add: ts valid_datetime_def)
  have v: "valid_datetime (y, 4, 1, 0, 0, 0)" using y by (rule april_valid)
  have v1: "valid_datetime (y - 1, 4, 1, 0, 0, 0) \<longleftrightarrow> 2 \<le> y"
    using y by (auto simp: valid_datetime_def days_in_month_def)
  show ?thesis
    unfolding term_start_from_timestamp_def datetime_new_def
    by (simp add: ts year_def v v1)
qed

lemma div_bracket:
  fixes d w :: int
  assumes "0 < w"
  shows "w * (d div w) \<le> d \<and> d < w * (d div w + 1)"
proof -
  have e: "d = w * (d div w) + d mod w" by simp
  have l: "0 \<le> d mod w" and u: "d mod w < w" using assms by simp_all
  have x: "w * (d div w + 1) = w * (d div w) + w" by (simp add: distrib_left)
  show ?thesis unfolding x using e l u by linarith
qed

lemma term_index_floor:
  "604800 * term_index ts start \<le> to_seconds ts - to_seconds start \<and>
   to_seconds ts - to_seconds start < 604800 * (term_index ts start + 1)"
  using div_bracket[of 604800 "to_seconds ts - to_seconds start"]
  by (simp add: term_index_def)

lemma term_index_boundary:
  "to_seconds ts - to_seconds start = 604800 * k \<Longrightarrow> term_index ts start = k"
  by (simp add: term_index_def)

lemma build_app_Inr:
  assumes "build_app strptime start i r = Inr sub"
  shows "\<exists>v. r COL_TIMESTAMP = Some (Some v) \<and> strptime (strip v) = Some (timestamp sub)"
    and "term_idx sub = term_index (timestamp sub) start"
    and "row sub = r" and "row_index sub = i" and "role sub = ROLE_APP"
    and "parse_floor_csv r = Inr (floor sub)"
  using assms unfolding build_app_def by (auto split: option.splits sum.splits)

lemma build_par_Inr:
  assumes "build_par strptime start i r = Inr sub"
  shows "\<exists>v. r COL_TIMESTAMP = Some (Some v) \<and> strptime (strip v) = Some (timestamp sub)"
    and "term_idx sub = term_index (timestamp sub) start"
    and "row sub = r" and "row_index sub = i" and "role sub = ROLE_PAR"
  using assms unfolding build_par_def by (auto split: option.splits sum.splits)

lemma build_rows_Inr:
  "build_rows f i rs = Inr subs \<Longrightarrow>
     length subs = length rs \<and> (\<forall>k < length rs. f (i + int k) (rs ! k) = Inr (subs ! k))"
proof (induction rs arbitrary: i subs)
  case Nil
  then show ?case by simp
next
  case (Cons r rs)
  from Cons.prems obtain sub rest where
    f: "f i r = Inr sub" and rest: "build_rows f (i + 1) rs = Inr rest" and subs: "subs = sub # rest"
    by (auto split: sum.splits)
  from Cons.IH[OF rest] have len: "length rest = length rs"
    and ih: "\<forall>k < length rs. f (i + 1 + int k) (rs ! k) = Inr (rest ! k)" by auto
  show ?case
  proof (intro conjI allI impI)
    show "length subs = length (r # rs)" using len subs by simp
  next
    fix k assume "k < length (r # rs)"
    then show "f (i + int k) ((r # rs) ! k) = Inr (subs ! k)"
      using f ih subs by (cases k) (auto simp: algebra_simps)
  qed
qed

lemma parse_timestamps_append_eq:
  "parse_timestamps sp (xs @ ys) =
     (case parse_timestamps sp xs of
        Inl e \<Rightarrow> Inl e
      | Inr ta \<Rightarrow> (case parse_timestamps sp ys of Inl e \<Rightarrow> Inl e | Inr tb \<Rightarrow> Inr (ta @ tb)))"
  by (induction xs) (simp_all split: option.splits sum.splits)

lemma parse_timestamps_append:
  "parse_timestamps sp (xs @ ys) = Inr tss \<longleftrightarrow>
     (\<exists>ta tb. parse_timestamps sp xs = Inr ta \<and> parse_timestamps sp ys = Inr tb \<and> tss = ta @ tb)"
  unfolding parse_timestamps_append_eq by (auto split: sum.splits)

lemma parse_timestamps_Cons:
  "r COL_TIMESTAMP = Some (Some v) \<Longrightarrow> sp (strip v) = Some ts \<Longrightarrow>
     parse_timestamps sp (r # rs) =
       (case parse_timestamps sp rs of Inl e \<Rightarrow> Inl e | Inr tss \<Rightarrow> Inr (ts # tss))"
  by simp

text \<open>The timestamps of the submissions are those that line 369 parses, in the same order.\<close>

lemma build_rows_timestamps:
  assumes "build_rows f i rs = Inr subs"
      and "\<And>j r sub. f j r = Inr sub \<Longrightarrow>
             \<exists>v. r COL_TIMESTAMP = Some (Some v) \<and> sp (strip v) = Some (timestamp sub)"
  shows "parse_timestamps sp rs = Inr (map timestamp subs)"
  using assms(1)
proof (induction rs arbitrary: i subs)
  case Nil
  then show ?case by simp
next
  case (Cons r rs)
  from Cons.prems obtain sub rest where
    f: "f i r = Inr sub" and rest: "build_rows f (i + 1) rs = Inr rest" and subs: "subs = sub # rest"
    by (auto split: sum.splits)
  from assms(2)[OF f] obtain v where
    v: "r COL_TIMESTAMP = Some (Some v)" "sp (strip v) = Some (timestamp sub)" by blast
  show ?case using v Cons.IH[OF rest] subs by simp
qed

lemma build_rows_row:
  assumes "build_rows f i rs = Inr subs"
      and "\<And>j r sub. f j r = Inr sub \<Longrightarrow> row sub = r"
  shows "map row subs = rs"
  using assms(1)
proof (induction rs arbitrary: i subs)
  case Nil
  then show ?case by simp
next
  case (Cons r rs)
  from Cons.prems obtain sub rest where
    f: "f i r = Inr sub" and rest: "build_rows f (i + 1) rs = Inr rest" and subs: "subs = sub # rest"
    by (auto split: sum.splits)
  show ?case unfolding subs using assms(2)[OF f] Cons.IH[OF rest] by simp
qed

lemma build_submissions_Inr:
  assumes "build_submissions sp app_rows par_rows start = Inr (apps, pars)"
  shows "build_rows (build_app sp start) 0 app_rows = Inr apps"
    and "build_rows (build_par sp start) 0 par_rows = Inr pars"
  using assms by (auto simp: build_submissions_def split: sum.splits)

lemma build_submissions_rows:
  assumes "build_submissions sp app_rows par_rows start = Inr (apps, pars)"
  shows "length apps = length app_rows" and "length pars = length par_rows"
    and "map row apps = app_rows" and "map row pars = par_rows"
    and "parse_timestamps sp (app_rows @ par_rows) = Inr (map timestamp (apps @ pars))"
proof -
  note a = build_submissions_Inr(1)[OF assms] and p = build_submissions_Inr(2)[OF assms]
  show "length apps = length app_rows" using build_rows_Inr[OF a] by simp
  show "length pars = length par_rows" using build_rows_Inr[OF p] by simp
  show "map row apps = app_rows" using a build_app_Inr(3) by (rule build_rows_row)
  show "map row pars = par_rows" using p build_par_Inr(3) by (rule build_rows_row)
  have ta: "parse_timestamps sp app_rows = Inr (map timestamp apps)"
    using a build_app_Inr(1) by (rule build_rows_timestamps)
  have tp: "parse_timestamps sp par_rows = Inr (map timestamp pars)"
    using p build_par_Inr(1) by (rule build_rows_timestamps)
  show "parse_timestamps sp (app_rows @ par_rows) = Inr (map timestamp (apps @ pars))"
    unfolding parse_timestamps_append_eq ta tp by simp
qed

text \<open>Reading a column that does not hold \<open>None\<close> raises nothing.\<close>

lemma get_strip_Inr: "r k \<noteq> Some None \<Longrightarrow> \<exists>v. get_strip r k = Inr v"
  by (auto simp: get_strip_def split: option.splits)

lemma parse_floor_csv_Inr:
  "r COL_FLOOR_NO_PARTNER \<noteq> Some None \<Longrightarrow> r COL_FLOOR_WITH_PARTNER \<noteq> Some None \<Longrightarrow>
     parse_floor_csv r = Inr (parse_floor (str_fields r))"
  by (simp add: parse_floor_csv_def)

lemma build_app_succeeds:
  assumes "r COL_TIMESTAMP = Some (Some v)" and "sp (strip v) = Some ts"
      and n: "\<forall>k \<in> set APP_COLUMNS. r k \<noteq> Some None"
  shows "\<exists>sub. build_app sp start i r = Inr sub \<and> timestamp sub = ts"
proof -
  from n have c: "r COL_APP_ID \<noteq> Some None" "r COL_APP_NAME \<noteq> Some None"
    "r COL_APP_PHOTO \<noteq> Some None" "r COL_CONSENT \<noteq> Some None" "r COL_PAR_ID \<noteq> Some None"
    "r COL_PAR_NAME \<noteq> Some None" "r COL_HAS_PARTNER \<noteq> Some None"
    "r COL_FLOOR_NO_PARTNER \<noteq> Some None" "r COL_FLOOR_WITH_PARTNER \<noteq> Some None"
    by (simp_all add: APP_COLUMNS_def)
  from get_strip_Inr[of r COL_APP_ID, OF c(1)] obtain v1 where 1: "get_strip r COL_APP_ID = Inr v1" ..
  from get_strip_Inr[of r COL_APP_NAME, OF c(2)] obtain v2 where 2: "get_strip r COL_APP_NAME = Inr v2" ..
  from get_strip_Inr[of r COL_APP_PHOTO, OF c(3)] obtain v3 where 3: "get_strip r COL_APP_PHOTO = Inr v3" ..
  from get_strip_Inr[of r COL_CONSENT, OF c(4)] obtain v4 where 4: "get_strip r COL_CONSENT = Inr v4" ..
  from get_strip_Inr[of r COL_PAR_ID, OF c(5)] obtain v5 where 5: "get_strip r COL_PAR_ID = Inr v5" ..
  from get_strip_Inr[of r COL_PAR_NAME, OF c(6)] obtain v6 where 6: "get_strip r COL_PAR_NAME = Inr v6" ..
  from get_strip_Inr[of r COL_HAS_PARTNER, OF c(7)] obtain v7 where 7: "get_strip r COL_HAS_PARTNER = Inr v7" ..
  note 8 = parse_floor_csv_Inr[OF c(8) c(9)]
  show ?thesis unfolding build_app_def by (simp add: assms(1,2) 1 2 3 4 5 6 7 8)
qed

lemma build_par_succeeds:
  assumes "r COL_TIMESTAMP = Some (Some v)" and "sp (strip v) = Some ts"
      and n: "\<forall>k \<in> set PAR_COLUMNS. r k \<noteq> Some None"
  shows "\<exists>sub. build_par sp start i r = Inr sub \<and> timestamp sub = ts"
proof -
  from n have c: "r COL_PAR_ID \<noteq> Some None" "r COL_PAR_NAME \<noteq> Some None"
    "r COL_PAR_PHOTO \<noteq> Some None" "r COL_CONSENT \<noteq> Some None"
    by (simp_all add: PAR_COLUMNS_def)
  from get_strip_Inr[of r COL_PAR_ID, OF c(1)] obtain v1 where 1: "get_strip r COL_PAR_ID = Inr v1" ..
  from get_strip_Inr[of r COL_PAR_NAME, OF c(2)] obtain v2 where 2: "get_strip r COL_PAR_NAME = Inr v2" ..
  from get_strip_Inr[of r COL_PAR_PHOTO, OF c(3)] obtain v3 where 3: "get_strip r COL_PAR_PHOTO = Inr v3" ..
  from get_strip_Inr[of r COL_CONSENT, OF c(4)] obtain v4 where 4: "get_strip r COL_CONSENT = Inr v4" ..
  show ?thesis unfolding build_par_def by (simp add: assms(1,2) 1 2 3 4)
qed

lemma parse_timestamps_ConsE:
  assumes "parse_timestamps sp (r # rs) = Inr tss"
  obtains v ts rest where "r COL_TIMESTAMP = Some (Some v)" and "sp (strip v) = Some ts"
    and "parse_timestamps sp rs = Inr rest" and "tss = ts # rest"
  using assms by (auto split: option.splits sum.splits)

lemma parse_build_rows:
  assumes "parse_timestamps sp rs = Inr tss"
      and "\<And>j r v ts. r \<in> set rs \<Longrightarrow> r COL_TIMESTAMP = Some (Some v) \<Longrightarrow> sp (strip v) = Some ts
             \<Longrightarrow> \<exists>sub. f j r = Inr sub \<and> timestamp sub = ts"
  shows "\<exists>subs. build_rows f i rs = Inr subs \<and> map timestamp subs = tss"
  using assms
proof (induction rs arbitrary: tss i)
  case Nil
  then show ?case by simp
next
  case (Cons r rs)
  from Cons.prems(1) obtain v ts rest where
    r: "r COL_TIMESTAMP = Some (Some v)" "sp (strip v) = Some ts"
    and rest: "parse_timestamps sp rs = Inr rest" and tss: "tss = ts # rest"
    by (rule parse_timestamps_ConsE)
  have "\<exists>subs. build_rows f (i + 1) rs = Inr subs \<and> map timestamp subs = rest"
  proof (rule Cons.IH[OF rest])
    fix j r' v' ts'
    assume "r' \<in> set rs" "r' COL_TIMESTAMP = Some (Some v')" "sp (strip v') = Some ts'"
    then show "\<exists>sub. f j r' = Inr sub \<and> timestamp sub = ts'"
      using Cons.prems(2)[where r = r' and v = v' and ts = ts' and j = j] by simp
  qed
  then obtain subs where
    s: "build_rows f (i + 1) rs = Inr subs" "map timestamp subs = rest" by blast
  have "\<exists>sub. f i r = Inr sub \<and> timestamp sub = ts"
    using Cons.prems(2)[where r = r and v = v and ts = ts and j = i] r by simp
  then obtain sub where f: "f i r = Inr sub" "timestamp sub = ts" by blast
  show ?case using s f tss by simp
qed

lemma parse_timestamps_valid:
  "\<forall>v ts. sp v = Some ts \<longrightarrow> valid_datetime ts \<Longrightarrow> parse_timestamps sp rs = Inr tss
     \<Longrightarrow> \<forall>ts \<in> set tss. valid_datetime ts"
  by (induction rs arbitrary: tss) (auto split: option.splits sum.splits)

lemma build_submissions_parse:
  assumes "parse_timestamps sp (app_rows @ par_rows) = Inr tss"
      and na: "\<forall>r \<in> set app_rows. \<forall>k \<in> set APP_COLUMNS. r k \<noteq> Some None"
      and np: "\<forall>r \<in> set par_rows. \<forall>k \<in> set PAR_COLUMNS. r k \<noteq> Some None"
  shows "\<exists>apps pars. build_submissions sp app_rows par_rows start = Inr (apps, pars)"
proof -
  from assms(1) obtain ta tb where ta: "parse_timestamps sp app_rows = Inr ta"
    and tb: "parse_timestamps sp par_rows = Inr tb"
    unfolding parse_timestamps_append by blast
  have "\<exists>apps. build_rows (build_app sp start) 0 app_rows = Inr apps \<and> map timestamp apps = ta"
    using ta
  proof (rule parse_build_rows)
    fix j r v ts
    assume "r \<in> set app_rows" "r COL_TIMESTAMP = Some (Some v)" "sp (strip v) = Some ts"
    then show "\<exists>sub. build_app sp start j r = Inr sub \<and> timestamp sub = ts"
      using na build_app_succeeds[where r = r and v = v and ts = ts and sp = sp] by blast
  qed
  then obtain apps where a: "build_rows (build_app sp start) 0 app_rows = Inr apps" by blast
  have "\<exists>pars. build_rows (build_par sp start) 0 par_rows = Inr pars \<and> map timestamp pars = tb"
    using tb
  proof (rule parse_build_rows)
    fix j r v ts
    assume "r \<in> set par_rows" "r COL_TIMESTAMP = Some (Some v)" "sp (strip v) = Some ts"
    then show "\<exists>sub. build_par sp start j r = Inr sub \<and> timestamp sub = ts"
      using np build_par_succeeds[where r = r and v = v and ts = ts and sp = sp] by blast
  qed
  then obtain pars where p: "build_rows (build_par sp start) 0 par_rows = Inr pars" by blast
  show ?thesis using a p by (simp add: build_submissions_def)
qed

lemma build_submissions_terms:
  assumes "build_submissions sp app_rows par_rows start = Inr (apps, pars)"
      and "s \<in> set (apps @ pars)"
  shows "term_idx s = term_index (timestamp s) start"
proof -
  note a = build_submissions_Inr(1)[OF assms(1)] and p = build_submissions_Inr(2)[OF assms(1)]
  from assms(2) consider "s \<in> set apps" | "s \<in> set pars" by auto
  then show ?thesis
  proof cases
    case 1
    then obtain k where k: "k < length apps" "apps ! k = s" by (auto simp: in_set_conv_nth)
    with build_rows_Inr[OF a] have "build_app sp start (0 + int k) (app_rows ! k) = Inr s" by auto
    then show ?thesis by (rule build_app_Inr(2))
  next
    case 2
    then obtain k where k: "k < length pars" "pars ! k = s" by (auto simp: in_set_conv_nth)
    with build_rows_Inr[OF p] have "build_par sp start (0 + int k) (par_rows ! k) = Inr s" by auto
    then show ?thesis by (rule build_par_Inr(2))
  qed
qed

lemma segment_Inr:
  assumes "segment sp app_rows par_rows = Inr (start, apps, pars)"
  shows "\<exists>tss. parse_timestamps sp (app_rows @ par_rows) = Inr tss \<and> tss \<noteq> []
           \<and> term_start_from_timestamp (Min (set tss)) = Inr start
           \<and> build_submissions sp app_rows par_rows start = Inr (apps, pars)
           \<and> map timestamp (apps @ pars) = tss"
proof -
  from assms obtain tss where t: "parse_timestamps sp (app_rows @ par_rows) = Inr tss" "tss \<noteq> []"
    and st: "term_start_from_timestamp (Min (set tss)) = Inr start"
    and b: "build_submissions sp app_rows par_rows start = Inr (apps, pars)"
    unfolding segment_def by (auto split: sum.splits if_splits)
  from build_submissions_rows(5)[OF b] t(1) have "map timestamp (apps @ pars) = tss"
    by simp
  with t st b show ?thesis by blast
qed

lemma segment_succeeds:
  assumes sp: "\<forall>v ts. sp v = Some ts \<longrightarrow> valid_datetime ts"
      and t: "parse_timestamps sp (app_rows @ par_rows) = Inr tss" "tss \<noteq> []"
      and y: "2 \<le> year (Min (set tss)) \<or> (year (Min (set tss)), 4, 1, 0, 0, 0) \<le> Min (set tss)"
      and na: "\<forall>r \<in> set app_rows. \<forall>k \<in> set APP_COLUMNS. r k \<noteq> Some None"
      and np: "\<forall>r \<in> set par_rows. \<forall>k \<in> set PAR_COLUMNS. r k \<noteq> Some None"
  shows "\<exists>start apps pars. segment sp app_rows par_rows = Inr (start, apps, pars)"
proof -
  let ?m = "Min (set tss)"
  have "?m \<in> set tss" using t(2) by (simp add: Min_in)
  then have v: "valid_datetime ?m" using parse_timestamps_valid[OF sp t(1)] by blast
  have "\<exists>start. term_start_from_timestamp ?m = Inr start"
    unfolding term_start_cases[OF v] using y by (auto simp: not_less)
  then obtain start where st: "term_start_from_timestamp ?m = Inr start" ..
  from build_submissions_parse[OF t(1) na np, of start] obtain apps pars where
    "build_submissions sp app_rows par_rows start = Inr (apps, pars)" by blast
  then have "segment sp app_rows par_rows = Inr (start, apps, pars)"
    using t st by (simp add: segment_def)
  then show ?thesis by blast
qed

text \<open>
  A record with a column of \<open>APP_COLUMNS\<close> that holds \<open>None\<close>, the field of a line shorter
  than the header, ends the run with \<open>AttributeError\<close>.
\<close>

lemma segment_short_line:
  "segment sp [[COL_TIMESTAMP \<mapsto> None]] [] = Inl AttributeError"
  by (simp add: segment_def)

text \<open>
  Claim C5: whenever the segmenter returns, there is one submission for every record of
  the two files, in the order of the records, with the timestamp parsed from its record;
  the anchor is April 1 of the year of the earliest timestamp of both files, or of the
  year before when that timestamp precedes April 1 of its own year; and the term of every
  submission is the integer \<open>k\<close> with \<open>604800 k \<le> timestamp - anchor < 604800 (k + 1)\<close>
  in seconds, so that a timestamp exactly \<open>k\<close> weeks after the anchor is in term \<open>k\<close>.
  The segmenter returns whenever the timestamps of all records parse, no column of a
  record holds \<open>None\<close>, there is a record, and the anchor is not before year 1.
\<close>

theorem term_segmenter:
  assumes sp: "\<forall>v ts. strptime v = Some ts \<longrightarrow> valid_datetime ts"
  shows "(\<forall>start apps pars.
            segment strptime app_rows par_rows = Inr (start, apps, pars) \<longrightarrow>
              apps @ pars \<noteq> [] \<and>
              length apps = length app_rows \<and> length pars = length par_rows \<and>
              map row apps = app_rows \<and> map row pars = par_rows \<and>
              parse_timestamps strptime (app_rows @ par_rows)
                = Inr (map timestamp (apps @ pars)) \<and>
              (let m = Min (timestamp ` set (apps @ pars))
               in start = (if m < (year m, 4, 1, 0, 0, 0) then (year m - 1, 4, 1, 0, 0, 0)
                           else (year m, 4, 1, 0, 0, 0))) \<and>
              (\<forall>s \<in> set (apps @ pars).
                 604800 * term_idx s \<le> to_seconds (timestamp s) - to_seconds start \<and>
                 to_seconds (timestamp s) - to_seconds start < 604800 * (term_idx s + 1) \<and>
                 (\<forall>k. to_seconds (timestamp s) - to_seconds start = 604800 * k
                        \<longrightarrow> term_idx s = k)))
       \<and> (\<forall>tss. parse_timestamps strptime (app_rows @ par_rows) = Inr tss \<and> tss \<noteq> [] \<and>
                 (2 \<le> year (Min (set tss)) \<or> (year (Min (set tss)), 4, 1, 0, 0, 0) \<le> Min (set tss)) \<and>
                 (\<forall>r \<in> set app_rows. \<forall>k \<in> set APP_COLUMNS. r k \<noteq> Some None) \<and>
                 (\<forall>r \<in> set par_rows. \<forall>k \<in> set PAR_COLUMNS. r k \<noteq> Some None)
              \<longrightarrow> (\<exists>start apps pars.
                     segment strptime app_rows par_rows = Inr (start, apps, pars)))"
proof (intro conjI allI impI)
  fix start apps pars
  assume seg: "segment strptime app_rows par_rows = Inr (start, apps, pars)"
  from segment_Inr[OF seg] obtain tss where
    t: "parse_timestamps strptime (app_rows @ par_rows) = Inr tss" "tss \<noteq> []"
    and st: "term_start_from_timestamp (Min (set tss)) = Inr start"
    and b: "build_submissions strptime app_rows par_rows start = Inr (apps, pars)"
    and ts: "map timestamp (apps @ pars) = tss" by blast
  show ne: "apps @ pars \<noteq> []" using t(2) ts by auto
  show "length apps = length app_rows" by (rule build_submissions_rows(1)[OF b])
  show "length pars = length par_rows" by (rule build_submissions_rows(2)[OF b])
  show "map row apps = app_rows" by (rule build_submissions_rows(3)[OF b])
  show "map row pars = par_rows" by (rule build_submissions_rows(4)[OF b])
  show "parse_timestamps strptime (app_rows @ par_rows) = Inr (map timestamp (apps @ pars))"
    by (rule build_submissions_rows(5)[OF b])
  have m: "Min (timestamp ` set (apps @ pars)) = Min (set tss)"
    using ts by (metis set_map)
  have "Min (set tss) \<in> set tss" using t(2) by (simp add: Min_in)
  then have v: "valid_datetime (Min (set tss))"
    using parse_timestamps_valid[OF sp t(1)] by blast
  show "let m = Min (timestamp ` set (apps @ pars))
        in start = (if m < (year m, 4, 1, 0, 0, 0) then (year m - 1, 4, 1, 0, 0, 0)
                    else (year m, 4, 1, 0, 0, 0))"
    using st unfolding m Let_def term_start_cases[OF v] by (auto split: if_splits)
  show "\<forall>s \<in> set (apps @ pars).
          604800 * term_idx s \<le> to_seconds (timestamp s) - to_seconds start \<and>
          to_seconds (timestamp s) - to_seconds start < 604800 * (term_idx s + 1) \<and>
          (\<forall>k. to_seconds (timestamp s) - to_seconds start = 604800 * k \<longrightarrow> term_idx s = k)"
  proof
    fix s assume "s \<in> set (apps @ pars)"
    from build_submissions_terms[OF b this]
    have e: "term_idx s = term_index (timestamp s) start" .
    show "604800 * term_idx s \<le> to_seconds (timestamp s) - to_seconds start \<and>
          to_seconds (timestamp s) - to_seconds start < 604800 * (term_idx s + 1) \<and>
          (\<forall>k. to_seconds (timestamp s) - to_seconds start = 604800 * k \<longrightarrow> term_idx s = k)"
      unfolding e using term_index_floor[of "timestamp s" start] term_index_boundary by blast
  qed
next
  fix tss
  assume h: "parse_timestamps strptime (app_rows @ par_rows) = Inr tss \<and> tss \<noteq> [] \<and>
          (2 \<le> year (Min (set tss)) \<or> (year (Min (set tss)), 4, 1, 0, 0, 0) \<le> Min (set tss)) \<and>
          (\<forall>r \<in> set app_rows. \<forall>k \<in> set APP_COLUMNS. r k \<noteq> Some None) \<and>
          (\<forall>r \<in> set par_rows. \<forall>k \<in> set PAR_COLUMNS. r k \<noteq> Some None)"
  note t1 = conjunct1[OF h] and h2 = conjunct2[OF h]
  note t2 = conjunct1[OF h2] and h3 = conjunct2[OF h2]
  note y = conjunct1[OF h3] and h4 = conjunct2[OF h3]
  note na = conjunct1[OF h4] and np = conjunct2[OF h4]
  show "\<exists>start apps pars. segment strptime app_rows par_rows = Inr (start, apps, pars)"
    by (rule segment_succeeds[OF sp t1 t2 y na np])
qed

lemma demo_strptime_valid: "\<forall>v ts. demo_strptime v = Some ts \<longrightarrow> valid_datetime ts"
  by (auto simp: demo_strptime_def valid_datetime_def days_in_month_def split: if_splits)

lemma strip_nospace:
  "s \<noteq> [] \<Longrightarrow> \<not> is_space (hd s) \<Longrightarrow> \<not> is_space (last s) \<Longrightarrow> strip s = s"
proof -
  assume a: "s \<noteq> []" "\<not> is_space (hd s)" "\<not> is_space (last s)"
  have 1: "dropWhile is_space s = s" using a(1,2) by (cases s) auto
  obtain xs x where s: "s = xs @ [x]" using a(1) by (cases s rule: rev_cases) auto
  have 2: "dropWhile is_space (rev s) = rev s" using a(3) unfolding s by simp
  show ?thesis by (simp add: strip_def 1 2)
qed

lemma demo_strip:
  "strip (ascii ''2024-04-15 00:00:00'') = ascii ''2024-04-15 00:00:00''"
  "strip (ascii ''2024-04-01 00:00:00'') = ascii ''2024-04-01 00:00:00''"
  by (simp_all add: strip_nospace is_space_def ascii_def)

lemma demo_strptime_values:
  "demo_strptime (ascii ''2024-04-15 00:00:00'') = Some (2024, 4, 15, 0, 0, 0)"
  "demo_strptime (ascii ''2024-04-01 00:00:00'') = Some (2024, 4, 1, 0, 0, 0)"
  by (simp_all add: demo_strptime_def ascii_def)

lemma demo_parse:
  "parse_timestamps demo_strptime (demo_app_rows @ demo_par_rows)
     = Inr [(2024, 4, 15, 0, 0, 0), (2024, 4, 1, 0, 0, 0)]"
  by (simp add: demo_app_rows_def demo_par_rows_def demo_strip demo_strptime_values)

lemma demo_min:
  "Min (set [(2024, 4, 15, 0, 0, 0), (2024, 4, 1, 0, 0, 0)]) = ((2024, 4, 1, 0, 0, 0) :: datetime)"
  by (simp add: less_eq_prod_def)

lemma demo_rows_strings:
  "\<forall>r \<in> set demo_app_rows. \<forall>k \<in> set APP_COLUMNS. r k \<noteq> Some None"
  "\<forall>r \<in> set demo_par_rows. \<forall>k \<in> set PAR_COLUMNS. r k \<noteq> Some None"
  by (simp_all add: demo_app_rows_def demo_par_rows_def)

lemma demo_get_strip:
  "k \<noteq> COL_TIMESTAMP \<Longrightarrow> get_strip [COL_TIMESTAMP \<mapsto> v] k = Inr []"
  by (simp add: get_strip_def strip_def)

lemma demo_parse_floor:
  "\<exists>f. parse_floor_csv [COL_TIMESTAMP \<mapsto> Some v] = Inr f"
  by (simp add: parse_floor_csv_def)

lemma cols_differ:
  "COL_APP_ID \<noteq> COL_TIMESTAMP" "COL_APP_NAME \<noteq> COL_TIMESTAMP" "COL_APP_PHOTO \<noteq> COL_TIMESTAMP"
  "COL_CONSENT \<noteq> COL_TIMESTAMP" "COL_PAR_ID \<noteq> COL_TIMESTAMP" "COL_PAR_NAME \<noteq> COL_TIMESTAMP"
  "COL_HAS_PARTNER \<noteq> COL_TIMESTAMP" "COL_PAR_PHOTO \<noteq> COL_TIMESTAMP"
  by (simp_all add: COL_APP_ID_def COL_APP_NAME_def COL_APP_PHOTO_def COL_CONSENT_def
        COL_PAR_ID_def COL_PAR_NAME_def COL_HAS_PARTNER_def COL_PAR_PHOTO_def COL_TIMESTAMP_def)

lemma demo_segment:
  "\<exists>apps pars. segment demo_strptime demo_app_rows demo_par_rows
                  = Inr ((2024, 4, 1, 0, 0, 0), apps, pars)
      \<and> map term_idx (apps @ pars) = [2, 0]"
proof -
  obtain f where f: "parse_floor_csv [COL_TIMESTAMP \<mapsto> Some (ascii ''2024-04-15 00:00:00'')] = Inr f"
    using demo_parse_floor by blast
  have st: "term_start_from_timestamp (2024, 4, 1, 0, 0, 0) = Inr (2024, 4, 1, 0, 0, 0)"
    by (simp add: term_start_from_timestamp_def datetime_new_def valid_datetime_def
          days_in_month_def year_def)
  have ti: "term_index (2024, 4, 15, 0, 0, 0) (2024, 4, 1, 0, 0, 0) = 2"
    "term_index (2024, 4, 1, 0, 0, 0) (2024, 4, 1, 0, 0, 0) = 0"
    by (simp_all add: term_index_def to_seconds_def days_before_year_def days_before_month_def
          is_leap_def)
  have a: "\<exists>apps. build_rows (build_app demo_strptime (2024, 4, 1, 0, 0, 0)) 0 demo_app_rows
             = Inr apps \<and> map term_idx apps = [2]"
    by (simp add: demo_app_rows_def build_app_def demo_strip demo_strptime_values
          demo_get_strip cols_differ f ti)
  have p: "\<exists>pars. build_rows (build_par demo_strptime (2024, 4, 1, 0, 0, 0)) 0 demo_par_rows
             = Inr pars \<and> map term_idx pars = [0]"
    by (simp add: demo_par_rows_def build_par_def demo_strip demo_strptime_values
          demo_get_strip cols_differ ti)
  from a obtain apps where a': "build_rows (build_app demo_strptime (2024, 4, 1, 0, 0, 0)) 0
      demo_app_rows = Inr apps" "map term_idx apps = [2]" by auto
  from p obtain pars where p': "build_rows (build_par demo_strptime (2024, 4, 1, 0, 0, 0)) 0
      demo_par_rows = Inr pars" "map term_idx pars = [0]" by auto
  have "segment demo_strptime demo_app_rows demo_par_rows = Inr ((2024, 4, 1, 0, 0, 0), apps, pars)"
    unfolding segment_def demo_parse by (simp add: demo_min st build_submissions_def a' p')
  then show ?thesis using a'(2) p'(2) by auto
qed

theorem term_segmenter_witness:
  "\<exists>start apps pars. segment demo_strptime demo_app_rows demo_par_rows = Inr (start, apps, pars)
      \<and> start = (2024, 4, 1, 0, 0, 0) \<and> map term_idx (apps @ pars) = [2, 0]
      \<and> length apps = length demo_app_rows \<and> length pars = length demo_par_rows
      \<and> map row apps = demo_app_rows \<and> map row pars = demo_par_rows
      \<and> parse_timestamps demo_strptime (demo_app_rows @ demo_par_rows)
          = Inr (map timestamp (apps @ pars))
      \<and> (\<forall>s \<in> set (apps @ pars).
            604800 * term_idx s \<le> to_seconds (timestamp s) - to_seconds start \<and>
            to_seconds (timestamp s) - to_seconds start < 604800 * (term_idx s + 1))"
proof -
  note ts = term_segmenter [OF demo_strptime_valid, of demo_app_rows demo_par_rows]
  have "\<exists>start apps pars.
          segment demo_strptime demo_app_rows demo_par_rows = Inr (start, apps, pars)"
    using ts demo_parse demo_rows_strings by (simp add: demo_min year_def)
  from demo_segment obtain apps pars where
    seg: "segment demo_strptime demo_app_rows demo_par_rows = Inr ((2024, 4, 1, 0, 0, 0), apps, pars)"
    and t: "map term_idx (apps @ pars) = [2, 0]" by auto
  from ts seg
  have l: "length apps = length demo_app_rows" "length pars = length demo_par_rows"
    and r: "map row apps = demo_app_rows" "map row pars = demo_par_rows"
    and p: "parse_timestamps demo_strptime (demo_app_rows @ demo_par_rows)
              = Inr (map timestamp (apps @ pars))"
    and b: "\<forall>s \<in> set (apps @ pars).
            604800 * term_idx s \<le> to_seconds (timestamp s) - to_seconds (2024, 4, 1, 0, 0, 0) \<and>
            to_seconds (timestamp s) - to_seconds (2024, 4, 1, 0, 0, 0) < 604800 * (term_idx s + 1)"
    by blast+
  show ?thesis
    by (intro exI conjI) (rule seg, rule refl, rule t, rule l, rule l, rule r, rule r, rule p, rule b)
qed

section \<open>Passes over the error attributes\<close>

lemma err_set_error [simp]: "err (set_error i e st) = (err st)(i := e)"
  by (simp add: set_error_def)

lemma ids_set_error [simp]: "ineligible_ids (set_error i e st) = ineligible_ids st"
  by (simp add: set_error_def)

lemma fold_local:
  assumes frame: "\<And>i st. ineligible_ids (f i st) = ineligible_ids st"
      and step: "\<And>i st. err (f i st) = (err st)(i := g (ineligible_ids st) i (err st i))"
      and dist: "distinct xs"
  shows "ineligible_ids (fold f xs st) = ineligible_ids st \<and>
         err (fold f xs st) =
           (\<lambda>j. if j \<in> set xs then g (ineligible_ids st) j (err st j) else err st j)"
  using dist
proof (induction xs arbitrary: st)
  case Nil
  show ?case by simp
next
  case (Cons x xs)
  from Cons.prems have d: "distinct xs" and nx: "x \<notin> set xs" by auto
  from Cons.IH[OF d, of "f x st"]
  have i: "ineligible_ids (fold f xs (f x st)) = ineligible_ids (f x st)"
    and e: "err (fold f xs (f x st)) =
      (\<lambda>j. if j \<in> set xs then g (ineligible_ids (f x st)) j (err (f x st) j)
           else err (f x st) j)" by auto
  show ?case
    unfolding fold_simps i e frame step using nx by (auto simp: fun_eq_iff)
qed

lemma validate_all_eq:
  "ineligible_ids (validate_all subs st) = ineligible_ids st \<and>
   err (validate_all subs st) =
     (\<lambda>j. if j < length subs then apply_input_validation (subs ! j) else err st j)"
  using fold_local[where f = "\<lambda>i. set_error i (apply_input_validation (subs ! i))"
      and g = "\<lambda>I i x. apply_input_validation (subs ! i)" and xs = "[0..<length subs]" and st = st]
  by (simp add: validate_all_def)

lemma partner_form_check_eq:
  "ineligible_ids (partner_form_check subs na st) = ineligible_ids st \<and>
   err (partner_form_check subs na st) =
     (\<lambda>j. if j < na \<and> err st j = None \<and> has_partner (subs ! j) = Some WITH_PARTNER
              \<and> partner_id (subs ! j) \<notin>
                  Some ` set (filter (\<lambda>p. p \<noteq> []) (map person_id (drop na subs)))
           then Some E1 else err st j)"
proof -
  let ?ids = "set (filter (\<lambda>p. p \<noteq> []) (map person_id (drop na subs)))"
  let ?f = "\<lambda>i st. if err st i = None \<and> has_partner (subs ! i) = Some WITH_PARTNER
                   then (if partner_id (subs ! i) \<notin> Some ` ?ids
                         then set_error i (Some E1) st else st)
                   else st"
  let ?g = "\<lambda>(I::pystr set) i x. if x = None \<and> has_partner (subs ! i) = Some WITH_PARTNER
                          \<and> partner_id (subs ! i) \<notin> Some ` ?ids then Some E1 else x"
  have "ineligible_ids (fold ?f [0..<na] st) = ineligible_ids st \<and>
        err (fold ?f [0..<na] st) =
          (\<lambda>j. if j \<in> set [0..<na] then ?g (ineligible_ids st) j (err st j) else err st j)"
    by (rule fold_local) (auto simp: fun_eq_iff)
  then show ?thesis
    unfolding partner_form_check_def Let_def by (auto simp: fun_eq_iff)
qed

lemma apply_e2_eq:
  "ineligible_ids (apply_e2 subs st) = ineligible_ids st \<and>
   err (apply_e2 subs st) =
     (\<lambda>j. if j < length subs \<and> err st j = None \<and> person_id (subs ! j) \<in> ineligible_ids st
           then Some E2 else err st j)"
proof -
  let ?f = "\<lambda>i st. if err st i = None \<and> person_id (subs ! i) \<in> ineligible_ids st
                   then set_error i (Some E2) st else st"
  let ?g = "\<lambda>I i x. if x = None \<and> person_id (subs ! i) \<in> I then Some E2 else x"
  have "ineligible_ids (fold ?f [0..<length subs] st) = ineligible_ids st \<and>
        err (fold ?f [0..<length subs] st) =
          (\<lambda>j. if j \<in> set [0..<length subs] then ?g (ineligible_ids st) j (err st j)
               else err st j)"
    by (rule fold_local) (auto simp: fun_eq_iff)
  then show ?thesis
    unfolding apply_e2_def by (auto simp: fun_eq_iff)
qed

lemma set_errors_eq:
  "ineligible_ids (set_errors xs c st) = ineligible_ids st \<and>
   err (set_errors xs c st) = (\<lambda>j. if j \<in> set xs then Some c else err st j)"
  unfolding set_errors_def
  by (induction xs arbitrary: st) (auto simp: fun_eq_iff)

lemma reject_missing_partner_eq:
  assumes "distinct xs"
  shows "ineligible_ids (reject_missing_partner subs xs m st) = ineligible_ids st \<and>
   err (reject_missing_partner subs xs m st) =
     (\<lambda>j. if j \<in> set xs \<and> has_partner (subs ! j) = Some WITH_PARTNER
              \<and> dict_get m (partner_id (subs ! j)) = None
           then Some E3 else err st j)"
proof -
  let ?f = "\<lambda>i st. if has_partner (subs ! i) = Some WITH_PARTNER
                   then (if dict_get m (partner_id (subs ! i)) = None
                         then set_error i (Some E3) st else st)
                   else st"
  let ?g = "\<lambda>(I::pystr set) i x. if has_partner (subs ! i) = Some WITH_PARTNER
                   \<and> dict_get m (partner_id (subs ! i)) = None then Some E3 else x"
  have "ineligible_ids (fold ?f xs st) = ineligible_ids st \<and>
        err (fold ?f xs st) =
          (\<lambda>j. if j \<in> set xs then ?g (ineligible_ids st) j (err st j) else err st j)"
    by (rule fold_local) (auto simp: fun_eq_iff assms)
  then show ?thesis
    unfolding reject_missing_partner_def by (auto simp: fun_eq_iff)
qed

lemma reject_unpaired_eq:
  assumes "distinct xs"
  shows "ineligible_ids (reject_unpaired subs xs paired st) = ineligible_ids st \<and>
   err (reject_unpaired subs xs paired st) =
     (\<lambda>j. if j \<in> set xs \<and> err st j = None \<and> person_id (subs ! j) \<notin> paired
           then Some E3 else err st j)"
proof -
  let ?f = "\<lambda>i st. if err st i = None \<and> person_id (subs ! i) \<notin> paired
                   then set_error i (Some E3) st else st"
  let ?g = "\<lambda>(I::pystr set) i x. if x = None \<and> person_id (subs ! i) \<notin> paired
                   then Some E3 else x"
  have "ineligible_ids (fold ?f xs st) = ineligible_ids st \<and>
        err (fold ?f xs st) =
          (\<lambda>j. if j \<in> set xs then ?g (ineligible_ids st) j (err st j) else err st j)"
    by (rule fold_local) (auto simp: fun_eq_iff assms)
  then show ?thesis
    unfolding reject_unpaired_def by (auto simp: fun_eq_iff)
qed

lemma set_success_eq:
  assumes "distinct xs"
  shows "ineligible_ids (set_success subs xs ids st) = ineligible_ids st \<and>
   err (set_success subs xs ids st) =
     (\<lambda>j. if j \<in> set xs \<and> err st j = None
           then (if person_id (subs ! j) \<in> ids then Some S0 else Some E3)
           else err st j)"
proof -
  let ?f = "\<lambda>i st. if err st i = None \<and> person_id (subs ! i) \<in> ids
                     then set_error i (Some S0) st
                   else if err st i = None then set_error i (Some E3) st
                   else st"
  let ?g = "\<lambda>(I::pystr set) i x. if x = None
                   then (if person_id (subs ! i) \<in> ids then Some S0 else Some E3) else x"
  have "ineligible_ids (fold ?f xs st) = ineligible_ids st \<and>
        err (fold ?f xs st) =
          (\<lambda>j. if j \<in> set xs then ?g (ineligible_ids st) j (err st j) else err st j)"
    by (rule fold_local) (auto simp: fun_eq_iff assms)
  then show ?thesis
    unfolding set_success_def by (auto simp: fun_eq_iff)
qed

section \<open>Grouping\<close>

lemma setdefault_append_keys:
  "map fst (setdefault_append k v d) =
     (if k \<in> fst ` set d then map fst d else map fst d @ [k])"
  by (induction d) (force+)

lemma setdefault_append_set:
  assumes "distinct (map fst d)"
  shows "set (setdefault_append k v d) =
     (if k \<in> fst ` set d
      then (\<lambda>(k', vs). (k', if k' = k then vs @ [v] else vs)) ` set d
      else insert (k, [v]) (set d))"
  using assms
proof (induction d)
  case Nil
  show ?case by simp
next
  case (Cons p d)
  obtain k' vs where p: "p = (k', vs)" by (cases p)
  from Cons.prems have d: "distinct (map fst d)" and nk: "k' \<notin> fst ` set d" by (auto simp: p)
  show ?case
  proof (cases "k = k'")
    case True
    have "(\<lambda>(k', vs). (k', if k' = k then vs @ [v] else vs)) ` set d = set d"
      using nk True by (force simp: image_iff split: prod.splits)
    then show ?thesis using True by (simp add: p)
  next
    case False
    then show ?thesis using Cons.IH[OF d] by (auto simp: p)
  qed
qed

lemma group_by_snoc:
  "group_by f (xs @ [x]) = setdefault_append (f x) x (group_by f xs)"
  by (simp add: group_by_def)

lemma group_by_inv:
  "distinct (map fst (group_by f xs)) \<and>
   set (group_by f xs) = (\<lambda>x. (f x, filter (\<lambda>y. f y = f x) xs)) ` set xs"
proof (induction xs rule: rev_induct)
  case Nil
  show ?case by (simp add: group_by_def)
next
  case (snoc x xs)
  let ?d = "group_by f xs"
  have dist: "distinct (map fst ?d)" by (rule snoc[THEN conjunct1])
  have st: "set ?d = (\<lambda>x. (f x, filter (\<lambda>y. f y = f x) xs)) ` set xs"
    by (rule snoc[THEN conjunct2])
  have keys: "fst ` set ?d = f ` set xs" unfolding st image_image by simp
  have 1: "distinct (map fst (group_by f (xs @ [x])))"
    unfolding group_by_snoc setdefault_append_keys using dist by simp
  let ?F = "\<lambda>z. (f z, filter (\<lambda>y. f y = f z) (xs @ [x]))"
  have upd: "(\<lambda>(k', vs). (k', if k' = f x then vs @ [x] else vs)) ` set ?d = ?F ` set xs"
  proof -
    have "(\<lambda>(k', vs). (k', if k' = f x then vs @ [x] else vs)) ` set ?d =
          (\<lambda>z. (f z, if f z = f x then filter (\<lambda>y. f y = f z) xs @ [x]
                          else filter (\<lambda>y. f y = f z) xs)) ` set xs"
      unfolding st image_image by simp
    also have "\<dots> = ?F ` set xs"
    proof (rule image_cong[OF refl])
      fix z
      show "(f z, if f z = f x then filter (\<lambda>y. f y = f z) xs @ [x]
                          else filter (\<lambda>y. f y = f z) xs) = ?F z"
        by (cases "f z = f x") simp_all
    qed
    finally show ?thesis .
  qed
  have 2: "set (group_by f (xs @ [x])) = ?F ` set (xs @ [x])"
  proof (cases "f x \<in> f ` set xs")
    case True
    then obtain z where z: "z \<in> set xs" "f z = f x" by auto
    then have Fxz: "?F x = ?F z" by simp
    have "?F x \<in> ?F ` set xs" by (rule image_eqI[of _ _ z]) (fact Fxz, fact z(1))
    then have "?F ` set (xs @ [x]) = ?F ` set xs" by auto
    with True show ?thesis
      unfolding group_by_snoc setdefault_append_set[OF dist] keys upd by simp
  next
    case False
    then have ne: "\<And>z. z \<in> set xs \<Longrightarrow> f z \<noteq> f x" by (metis image_eqI)
    have "set ?d = ?F ` set xs"
      unfolding st
    proof (rule image_cong[OF refl])
      fix z assume "z \<in> set xs"
      from ne[OF this] have "f x \<noteq> f z" by simp
      then show "(f z, filter (\<lambda>y. f y = f z) xs) = ?F z" by simp
    qed
    moreover have "?F x = (f x, [x])"
      using ne by (auto simp: filter_empty_conv)
    ultimately show ?thesis using False
      unfolding group_by_snoc setdefault_append_set[OF dist] keys by simp
  qed
  from 1 2 show ?case by blast
qed

lemma group_by_distinct_keys: "distinct (map fst (group_by f xs))"
  using group_by_inv by blast

lemma group_by_set:
  "set (group_by f xs) = (\<lambda>x. (f x, filter (\<lambda>y. f y = f x) xs)) ` set xs"
  using group_by_inv by blast

lemma group_by_member:
  "(k, g) \<in> set (group_by f xs) \<longleftrightarrow> g = filter (\<lambda>y. f y = k) xs \<and> k \<in> f ` set xs"
  unfolding group_by_set by auto

lemma group_by_nonempty: "(k, g) \<in> set (group_by f xs) \<Longrightarrow> g \<noteq> []"
  unfolding group_by_member by (auto simp: filter_empty_conv)

section \<open>Sorted groups\<close>

lemma sorted_last_max:
  "sorted (map f xs) \<Longrightarrow> x \<in> set xs \<Longrightarrow> f x \<le> f (last xs)"
proof (induction xs)
  case Nil
  then show ?case by simp
next
  case (Cons a xs)
  then show ?case by (cases "xs = []") auto
qed

lemma sorted_hd_min:
  "sorted (map f xs) \<Longrightarrow> x \<in> set xs \<Longrightarrow> f (hd xs) \<le> f x"
  by (cases xs) auto

lemma last_sort_key_max:
  "x \<in> set g \<Longrightarrow> f x \<le> f (last (sort_key f g))"
  using sorted_last_max[of f "sort_key f g" x] by (simp add: sorted_sort_key)

lemma hd_sort_key_min:
  "x \<in> set g \<Longrightarrow> f (hd (sort_key f g)) \<le> f x"
  using sorted_hd_min[of f "sort_key f g" x] by (simp add: sorted_sort_key)

lemma sort_key_nonempty: "g \<noteq> [] \<Longrightarrow> sort_key f g \<noteq> []"
  by (metis length_sort length_0_conv)

lemma last_sort_key_in: "g \<noteq> [] \<Longrightarrow> last (sort_key f g) \<in> set g"
  using last_in_set[OF sort_key_nonempty, of g f] by simp

lemma hd_sort_key_in: "g \<noteq> [] \<Longrightarrow> hd (sort_key f g) \<in> set g"
  using hd_in_set[OF sort_key_nonempty, of g f] by simp

lemma butlast_sort_key_set:
  assumes "distinct g" "g \<noteq> []"
  shows "set (butlast (sort_key f g)) = set g - {last (sort_key f g)}"
proof -
  let ?s = "sort_key f g"
  have ne: "?s \<noteq> []" using assms(2) by (rule sort_key_nonempty)
  have d: "distinct ?s" using assms(1) by simp
  have "?s = butlast ?s @ [last ?s]" using ne by simp
  then have "set ?s = set (butlast ?s) \<union> {last ?s}" "last ?s \<notin> set (butlast ?s)"
    using d by (metis set_append list.set(1,2), metis distinct_butlast not_distinct_conv_prefix append_butlast_last_id ne)
  then show ?thesis by auto
qed

lemma tl_sort_key_set:
  assumes "distinct g" "g \<noteq> []"
  shows "set (tl (sort_key f g)) = set g - {hd (sort_key f g)}"
proof -
  let ?s = "sort_key f g"
  have ne: "?s \<noteq> []" using assms(2) by (rule sort_key_nonempty)
  have d: "distinct ?s" using assms(1) by simp
  obtain a t where s: "?s = a # t" using ne by (cases ?s) auto
  have "set ?s = set g" by simp
  then show ?thesis using d unfolding s by auto
qed

section \<open>Keeping the latest submission of every person\<close>

lemma choose_latest_fold:
  "fold (\<lambda>(pid, items) (kept, dropped).
           (kept @ [last (sort_key key items)], dropped @ butlast (sort_key key items)))
        gs (k0, d0)
   = (k0 @ map (\<lambda>(pid, items). last (sort_key key items)) gs,
      d0 @ concat (map (\<lambda>(pid, items). butlast (sort_key key items)) gs))"
  by (induction gs arbitrary: k0 d0) auto

lemma choose_latest_eq:
  "choose_latest_by_person subs cands =
     (map (\<lambda>(pid, items). last (sort_key (order_key subs) items))
          (group_by (\<lambda>i. person_id (subs ! i)) cands),
      concat (map (\<lambda>(pid, items). butlast (sort_key (order_key subs) items))
          (group_by (\<lambda>i. person_id (subs ! i)) cands)))"
  unfolding choose_latest_by_person_def Let_def choose_latest_fold by simp

lemma person_group_self: "i \<in> set cands \<Longrightarrow> i \<in> set (person_group subs cands i)"
  by (simp add: person_group_def)

lemma person_group_nonempty: "i \<in> set cands \<Longrightarrow> person_group subs cands i \<noteq> []"
  using person_group_self[of i cands subs] by (metis empty_iff list.set(1))

lemma person_group_eq:
  "j \<in> set (person_group subs cands i) \<Longrightarrow> person_group subs cands j = person_group subs cands i"
  by (simp add: person_group_def)

lemma latest_of_in: "g \<noteq> [] \<Longrightarrow> latest_of subs g \<in> set g"
  unfolding latest_of_def by (rule last_sort_key_in)

lemma latest_of_group:
  assumes "i \<in> set cands"
  shows "latest_of subs (person_group subs cands i) \<in> set (person_group subs cands i)"
  using latest_of_in[OF person_group_nonempty[OF assms]] .

lemma kept_set:
  "set (fst (choose_latest_by_person subs cands)) =
     {i \<in> set cands. i = latest_of subs (person_group subs cands i)}"
proof (intro set_eqI iffI)
  fix i
  assume "i \<in> set (fst (choose_latest_by_person subs cands))"
  then obtain k g where kg: "(k, g) \<in> set (group_by (\<lambda>i. person_id (subs ! i)) cands)"
    and i: "i = last (sort_key (order_key subs) g)"
    unfolding choose_latest_eq by auto
  from kg obtain x where x: "x \<in> set cands" and g: "g = person_group subs cands x"
    unfolding group_by_member person_group_def by auto
  have "i \<in> set (person_group subs cands x)"
    using latest_of_group[OF x, of subs] unfolding i g latest_of_def .
  then have "person_group subs cands i = person_group subs cands x" "i \<in> set cands"
    by (simp_all add: person_group_def)
  then show "i \<in> {i \<in> set cands. i = latest_of subs (person_group subs cands i)}"
    using i g by (simp add: latest_of_def)
next
  fix i
  assume "i \<in> {i \<in> set cands. i = latest_of subs (person_group subs cands i)}"
  then have ic: "i \<in> set cands" and il: "i = latest_of subs (person_group subs cands i)" by auto
  have "(person_id (subs ! i), person_group subs cands i)
          \<in> set (group_by (\<lambda>i. person_id (subs ! i)) cands)"
    unfolding group_by_member person_group_def using ic by auto
  then have "(\<lambda>(pid, items). last (sort_key (order_key subs) items))
               (person_id (subs ! i), person_group subs cands i)
             \<in> set (fst (choose_latest_by_person subs cands))"
    unfolding choose_latest_eq fst_conv set_map by (rule imageI)
  then show "i \<in> set (fst (choose_latest_by_person subs cands))"
    using il by (simp add: latest_of_def)
qed

lemma dropped_set:
  assumes "distinct cands"
  shows "set (snd (choose_latest_by_person subs cands)) =
     {i \<in> set cands. i \<noteq> latest_of subs (person_group subs cands i)}"
proof (intro set_eqI iffI)
  fix i
  assume "i \<in> set (snd (choose_latest_by_person subs cands))"
  then obtain k g where kg: "(k, g) \<in> set (group_by (\<lambda>i. person_id (subs ! i)) cands)"
    and i: "i \<in> set (butlast (sort_key (order_key subs) g))"
    unfolding choose_latest_eq by auto
  from kg obtain x where x: "x \<in> set cands" and g: "g = person_group subs cands x"
    unfolding group_by_member person_group_def by auto
  have dg: "distinct g" "g \<noteq> []"
    using assms person_group_nonempty[OF x, of subs] unfolding g
    by (simp_all add: person_group_def)
  from i have ig: "i \<in> set g" "i \<noteq> latest_of subs g"
    unfolding butlast_sort_key_set[OF dg] latest_of_def by auto
  then have "person_group subs cands i = g" "i \<in> set cands"
    unfolding g by (simp_all add: person_group_def)
  then show "i \<in> {i \<in> set cands. i \<noteq> latest_of subs (person_group subs cands i)}"
    using ig by simp
next
  fix i
  assume "i \<in> {i \<in> set cands. i \<noteq> latest_of subs (person_group subs cands i)}"
  then have ic: "i \<in> set cands" and il: "i \<noteq> latest_of subs (person_group subs cands i)"
    by auto
  let ?g = "person_group subs cands i"
  have dg: "distinct ?g" "?g \<noteq> []"
    using assms person_group_nonempty[OF ic, of subs] by (simp_all add: person_group_def)
  have "i \<in> set (butlast (sort_key (order_key subs) ?g))"
    unfolding butlast_sort_key_set[OF dg] using il person_group_self[OF ic, of subs]
    by (simp add: latest_of_def)
  moreover have "(person_id (subs ! i), ?g) \<in> set (group_by (\<lambda>i. person_id (subs ! i)) cands)"
    unfolding group_by_member person_group_def using ic by auto
  ultimately show "i \<in> set (snd (choose_latest_by_person subs cands))"
    unfolding choose_latest_eq by force
qed

lemma kept_person_ids:
  "map (\<lambda>i. person_id (subs ! i)) (fst (choose_latest_by_person subs cands)) =
     map fst (group_by (\<lambda>i. person_id (subs ! i)) cands)"
proof -
  have "\<And>k g. (k, g) \<in> set (group_by (\<lambda>i. person_id (subs ! i)) cands) \<Longrightarrow>
          person_id (subs ! last (sort_key (order_key subs) g)) = k"
  proof -
    fix k g assume kg: "(k, g) \<in> set (group_by (\<lambda>i. person_id (subs ! i)) cands)"
    have g: "g = filter (\<lambda>y. person_id (subs ! y) = k) cands"
      using kg unfolding group_by_member by blast
    have ne: "g \<noteq> []" using kg by (rule group_by_nonempty)
    have "last (sort_key (order_key subs) g) \<in> set g" using ne by (rule last_sort_key_in)
    then have "last (sort_key (order_key subs) g)
                 \<in> set (filter (\<lambda>y. person_id (subs ! y) = k) cands)"
      unfolding g .
    then show "person_id (subs ! last (sort_key (order_key subs) g)) = k"
      unfolding set_filter by blast
  qed
  then show ?thesis
    unfolding choose_latest_eq fst_conv map_map by (intro map_cong refl) auto
qed

lemma kept_distinct_person_ids:
  "distinct (map (\<lambda>i. person_id (subs ! i)) (fst (choose_latest_by_person subs cands)))"
  unfolding kept_person_ids by (rule group_by_distinct_keys)

lemma dedup_eq:
  "dedup subs st =
     (set_errors (snd (choose_latest_by_person subs (clean st [0..<length subs]))) E3 st,
      fst (choose_latest_by_person subs (clean st [0..<length subs])))"
  unfolding dedup_def Let_def by (simp add: case_prod_beta)

section \<open>The states between the passes\<close>

lemma apply_input_validation_codes:
  "apply_input_validation s = None \<or> apply_input_validation s = Some E1"
  unfolding apply_input_validation_def by (simp split: if_splits)

lemma ids_after_validation [simp]:
  "ineligible_ids (after_validation subs na st) = ineligible_ids st"
  by (simp add: after_validation_def partner_form_check_eq validate_all_eq)

lemma err_after_validation:
  "err (after_validation subs na st) j =
     (if j < length subs
      then (if apply_input_validation (subs ! j) = None \<and> j < na
               \<and> has_partner (subs ! j) = Some WITH_PARTNER
               \<and> partner_id (subs ! j) \<notin>
                    Some ` set (filter (\<lambda>p. p \<noteq> []) (map person_id (drop na subs)))
            then Some E1 else apply_input_validation (subs ! j))
      else (if j < na \<and> err st j = None \<and> has_partner (subs ! j) = Some WITH_PARTNER
               \<and> partner_id (subs ! j) \<notin>
                    Some ` set (filter (\<lambda>p. p \<noteq> []) (map person_id (drop na subs)))
            then Some E1 else err st j))"
  by (simp add: after_validation_def partner_form_check_eq validate_all_eq)

lemma after_validation_codes:
  "j < length subs \<Longrightarrow>
     err (after_validation subs na st) j = None \<or> err (after_validation subs na st) j = Some E1"
  using apply_input_validation_codes[of "subs ! j"] by (auto simp: err_after_validation)

lemma after_validation_clean:
  "j < length subs \<Longrightarrow> err (after_validation subs na st) j = None \<Longrightarrow>
     apply_input_validation (subs ! j) = None"
  by (auto simp: err_after_validation split: if_splits)

lemma ids_after_ineligible [simp]:
  "ineligible_ids (after_ineligible subs na st) = ineligible_ids st"
  by (simp add: after_ineligible_def apply_e2_eq)

lemma err_after_ineligible:
  "err (after_ineligible subs na st) j =
     (if j < length subs \<and> err (after_validation subs na st) j = None
         \<and> person_id (subs ! j) \<in> ineligible_ids st
      then Some E2 else err (after_validation subs na st) j)"
  by (simp add: after_ineligible_def apply_e2_eq)

lemma clean_candidates_set:
  "set (clean_candidates subs na st) =
     {j. j < length subs \<and> err (after_ineligible subs na st) j = None}"
  by (auto simp: clean_candidates_def clean_def)

lemma clean_candidates_distinct: "distinct (clean_candidates subs na st)"
  by (simp add: clean_candidates_def clean_def)

lemma ids_after_dedup [simp]:
  "ineligible_ids (after_dedup subs na st) = ineligible_ids st"
  by (simp add: after_dedup_def dedup_eq set_errors_eq)

lemma err_after_dedup:
  "err (after_dedup subs na st) j =
     (if j \<in> set (clean_candidates subs na st)
         \<and> j \<noteq> latest_of subs (person_group subs (clean_candidates subs na st) j)
      then Some E3 else err (after_ineligible subs na st) j)"
  unfolding after_dedup_def dedup_eq fst_conv clean_candidates_def[symmetric]
  by (simp add: set_errors_eq dropped_set[OF clean_candidates_distinct])

lemma kept_list_set:
  "set (kept_list subs na st) =
     {j \<in> set (clean_candidates subs na st).
        j = latest_of subs (person_group subs (clean_candidates subs na st) j)}"
  unfolding kept_list_def dedup_eq snd_conv clean_candidates_def[symmetric]
  by (rule kept_set)

lemma kept_list_distinct_ids:
  "distinct (map (\<lambda>i. person_id (subs ! i)) (kept_list subs na st))"
  unfolding kept_list_def dedup_eq snd_conv by (rule kept_distinct_person_ids)

lemma candidates_eq_kept: "candidates subs na st = kept_list subs na st"
proof -
  have "\<forall>j \<in> set (kept_list subs na st). err (after_dedup subs na st) j = None"
    unfolding kept_list_set err_after_dedup clean_candidates_set by auto
  then show ?thesis
    unfolding candidates_def clean_def by (simp add: filter_id_conv)
qed

lemma candidates_set:
  "set (candidates subs na st) = {j. j < length subs \<and> err (after_dedup subs na st) j = None}"
proof -
  have "\<And>j. j < length subs \<Longrightarrow> err (after_dedup subs na st) j = None \<longleftrightarrow>
          j \<in> set (clean_candidates subs na st) \<and>
          j = latest_of subs (person_group subs (clean_candidates subs na st) j)"
    unfolding err_after_dedup clean_candidates_set by auto
  then show ?thesis
    unfolding candidates_eq_kept kept_list_set clean_candidates_set by auto
qed

lemma candidates_distinct_ids:
  "distinct (map (\<lambda>i. person_id (subs ! i)) (candidates subs na st))"
  unfolding candidates_eq_kept by (rule kept_list_distinct_ids)

lemma candidates_distinct: "distinct (candidates subs na st)"
  using candidates_distinct_ids[of subs na st] by (simp add: distinct_map)

section \<open>Conflicts between applicants naming the same partner\<close>

lemma two_members: "a \<in> set g \<Longrightarrow> b \<in> set g \<Longrightarrow> a \<noteq> b \<Longrightarrow> 1 < length g"
  by (cases g; cases "tl g") auto

lemma partner_group_self: "i \<in> set xs \<Longrightarrow> i \<in> set (partner_group subs xs i)"
  by (simp add: partner_group_def)

lemma partner_group_nonempty: "i \<in> set xs \<Longrightarrow> partner_group subs xs i \<noteq> []"
  using partner_group_self[of i xs subs] by (metis empty_iff list.set(1))

lemma earliest_of_in: "g \<noteq> [] \<Longrightarrow> earliest_of subs g \<in> set g"
  unfolding earliest_of_def by (rule hd_sort_key_in)

lemma fold_groups:
  "ineligible_ids (fold (\<lambda>(p, g) st. if length g \<le> 1 then st
                                      else set_errors (tl (sort_key key g)) E3 st) gs st)
     = ineligible_ids st \<and>
   err (fold (\<lambda>(p, g) st. if length g \<le> 1 then st
                           else set_errors (tl (sort_key key g)) E3 st) gs st)
     = (\<lambda>j. if \<exists>(p, g) \<in> set gs. 1 < length g \<and> j \<in> set (tl (sort_key key g))
             then Some E3 else err st j)"
proof (induction gs arbitrary: st)
  case Nil
  show ?case by simp
next
  case (Cons pg gs)
  obtain p g where pg: "pg = (p, g)" by (cases pg)
  let ?F = "\<lambda>(p, g) st. if length g \<le> 1 then st
                         else set_errors (tl (sort_key key g)) E3 st"
  show ?case
  proof (cases "length g \<le> 1")
    case True
    then have "fold ?F (pg # gs) st = fold ?F gs st" by (simp add: pg)
    then show ?thesis using Cons.IH[of st] True by (auto simp: pg fun_eq_iff)
  next
    case False
    let ?st = "set_errors (tl (sort_key key g)) E3 st"
    have "fold ?F (pg # gs) st = fold ?F gs ?st" using False by (simp add: pg)
    then show ?thesis using Cons.IH[of ?st] False
      by (auto simp: pg fun_eq_iff set_errors_eq)
  qed
qed

lemma conflict_condition:
  assumes d: "distinct xs"
  shows "(\<exists>(p, g) \<in> set (group_by (\<lambda>i. partner_id (subs ! i)) xs).
             1 < length g \<and> j \<in> set (tl (sort_key (order_key subs) g)))
         \<longleftrightarrow> j \<in> set xs \<and> j \<noteq> earliest_of subs (partner_group subs xs j)"
proof
  assume "\<exists>(p, g) \<in> set (group_by (\<lambda>i. partner_id (subs ! i)) xs).
             1 < length g \<and> j \<in> set (tl (sort_key (order_key subs) g))"
  then obtain p g where pg: "(p, g) \<in> set (group_by (\<lambda>i. partner_id (subs ! i)) xs)"
    and j: "j \<in> set (tl (sort_key (order_key subs) g))" by auto
  have g: "g = filter (\<lambda>y. partner_id (subs ! y) = p) xs"
    using pg unfolding group_by_member by blast
  have ne: "g \<noteq> []" using pg by (rule group_by_nonempty)
  have dg: "distinct g" unfolding g using d by simp
  from j have jg: "j \<in> set g" and jh: "j \<noteq> hd (sort_key (order_key subs) g)"
    unfolding tl_sort_key_set[OF dg ne] by auto
  from jg have "j \<in> set xs" "partner_id (subs ! j) = p" unfolding g by auto
  then have "partner_group subs xs j = g" "j \<in> set xs"
    unfolding g partner_group_def by auto
  then show "j \<in> set xs \<and> j \<noteq> earliest_of subs (partner_group subs xs j)"
    using jh by (simp add: earliest_of_def)
next
  assume a: "j \<in> set xs \<and> j \<noteq> earliest_of subs (partner_group subs xs j)"
  let ?g = "partner_group subs xs j"
  have ne: "?g \<noteq> []" using a by (simp add: partner_group_nonempty)
  have dg: "distinct ?g" unfolding partner_group_def using d by simp
  have jg: "j \<in> set ?g" using a by (simp add: partner_group_self)
  have eg: "earliest_of subs ?g \<in> set ?g" using ne by (rule earliest_of_in)
  have len: "1 < length ?g" using jg eg a by (metis two_members)
  have "j \<in> set (tl (sort_key (order_key subs) ?g))"
    unfolding tl_sort_key_set[OF dg ne] using jg a by (simp add: earliest_of_def)
  moreover have "(partner_id (subs ! j), ?g) \<in> set (group_by (\<lambda>i. partner_id (subs ! i)) xs)"
    unfolding group_by_member partner_group_def using a by auto
  ultimately show "\<exists>(p, g) \<in> set (group_by (\<lambda>i. partner_id (subs ! i)) xs).
             1 < length g \<and> j \<in> set (tl (sort_key (order_key subs) g))"
    using len by blast
qed

lemma resolve_conflicts_eq:
  assumes "distinct app_cands"
  shows "ineligible_ids (resolve_conflicts subs app_cands st) = ineligible_ids st \<and>
         err (resolve_conflicts subs app_cands st) =
           (\<lambda>j. if j \<in> set (claimants subs app_cands st)
                    \<and> j \<noteq> earliest_of subs (partner_group subs (claimants subs app_cands st) j)
                 then Some E3 else err st j)"
proof -
  have d: "distinct (claimants subs app_cands st)"
    unfolding claimants_def using assms by simp
  have "resolve_conflicts subs app_cands st =
          fold (\<lambda>(p, g) st. if length g \<le> 1 then st
                               else set_errors (tl (sort_key (order_key subs) g)) E3 st)
               (group_by (\<lambda>i. partner_id (subs ! i)) (claimants subs app_cands st)) st"
    by (simp add: resolve_conflicts_def applicants_by_partner_def claimants_def)
  then show ?thesis
    using fold_groups[of "order_key subs"
        "group_by (\<lambda>i. partner_id (subs ! i)) (claimants subs app_cands st)" st]
      conflict_condition[OF d, of subs]
    by simp
qed

section \<open>The partner index\<close>

lemma partner_index_fold:
  assumes "distinct (map (\<lambda>i. person_id (subs ! i)) xs)"
  shows "fold (\<lambda>i m. m(person_id (subs ! i) \<mapsto> i)) xs m0 p = Some j \<longleftrightarrow>
           (j \<in> set xs \<and> person_id (subs ! j) = p) \<or>
           ((\<forall>i \<in> set xs. person_id (subs ! i) \<noteq> p) \<and> m0 p = Some j)"
  using assms
proof (induction xs arbitrary: m0)
  case Nil
  show ?case by simp
next
  case (Cons x xs)
  from Cons.prems have d: "distinct (map (\<lambda>i. person_id (subs ! i)) xs)"
    and nx0: "person_id (subs ! x) \<notin> (\<lambda>i. person_id (subs ! i)) ` set xs" by simp_all
  have nx: "\<forall>i \<in> set xs. person_id (subs ! i) \<noteq> person_id (subs ! x)"
    using nx0 by (metis image_eqI)
  show ?case
    unfolding fold_simps Cons.IH[OF d] using nx by auto
qed

lemma partner_index_Some:
  assumes "distinct (map (\<lambda>i. person_id (subs ! i)) xs)"
  shows "partner_index subs xs p = Some j \<longleftrightarrow> j \<in> set xs \<and> person_id (subs ! j) = p"
  unfolding partner_index_def partner_index_fold[OF assms] by simp

section \<open>Emitting the rows\<close>

lemma role_app_neq_par: "ROLE_APP \<noteq> ROLE_PAR"
  by (simp add: ROLE_APP_def ROLE_PAR_def ascii_def)

lemma make_pairs_fold:
  assumes "\<forall>i \<in> set xs. err st i = None \<and> has_partner (subs ! i) = Some WITH_PARTNER
             \<longrightarrow> (\<exists>j. dict_get m (partner_id (subs ! i)) = Some j \<and> err st j = None)"
  shows "fold (pair_step subs m) xs (st, P0, R0) =
           (st,
            P0 \<union> {person_id (subs ! j) | i j.
                    i \<in> set xs \<and> err st i = None \<and> partner_of subs m i = Some j},
            R0 @ map (alloc_row_of subs m) (filter (\<lambda>i. err st i = None) xs))"
  using assms
proof (induction xs arbitrary: P0 R0)
  case Nil
  show ?case by simp
next
  case (Cons x xs)
  from Cons.prems have
    hx: "err st x = None \<and> has_partner (subs ! x) = Some WITH_PARTNER
           \<longrightarrow> (\<exists>j. dict_get m (partner_id (subs ! x)) = Some j \<and> err st j = None)"
    and hxs: "\<forall>i \<in> set xs. err st i = None \<and> has_partner (subs ! i) = Some WITH_PARTNER
             \<longrightarrow> (\<exists>j. dict_get m (partner_id (subs ! i)) = Some j \<and> err st j = None)"
    by auto
  note ih = Cons.IH[OF hxs]
  show ?case
  proof (cases "err st x = None")
    case False
    then have step: "pair_step subs m x (st, P0, R0) = (st, P0, R0)"
      by (simp add: pair_step_def)
    have "{person_id (subs ! j) | i j. i \<in> set xs \<and> err st i = None \<and> partner_of subs m i = Some j}
            = {person_id (subs ! j) | i j.
                    i \<in> set (x # xs) \<and> err st i = None \<and> partner_of subs m i = Some j}"
      using False by auto
    then show ?thesis using False by (simp add: step ih)
  next
    case clean: True
    show ?thesis
    proof (cases "has_partner (subs ! x) = Some WITH_PARTNER")
      case True
      with hx clean obtain j where j: "dict_get m (partner_id (subs ! x)) = Some j" "err st j = None"
        by auto
      have step: "pair_step subs m x (st, P0, R0) =
              (st, insert (person_id (subs ! j)) P0, R0 @ [alloc_row_of subs m x])"
        using clean True j by (simp add: pair_step_def alloc_row_of_def)
      have pj: "partner_of subs m x = Some j" using True j by (simp add: partner_of_def)
      have "insert (person_id (subs ! j)) P0 \<union>
              {person_id (subs ! j) | i j. i \<in> set xs \<and> err st i = None \<and> partner_of subs m i = Some j}
            = P0 \<union> {person_id (subs ! j) | i j.
                    i \<in> set (x # xs) \<and> err st i = None \<and> partner_of subs m i = Some j}"
        using clean pj by auto
      then show ?thesis using clean by (simp add: step ih)
    next
      case False
      have step: "pair_step subs m x (st, P0, R0) = (st, P0, R0 @ [alloc_row_of subs m x])"
        using clean False by (simp add: pair_step_def alloc_row_of_def)
      have pj: "partner_of subs m x = None" using False by (simp add: partner_of_def)
      have "{person_id (subs ! j) | i j. i \<in> set xs \<and> err st i = None \<and> partner_of subs m i = Some j}
            = {person_id (subs ! j) | i j.
                    i \<in> set (x # xs) \<and> err st i = None \<and> partner_of subs m i = Some j}"
        using pj by auto
      then show ?thesis using clean by (simp add: step ih)
    qed
  qed
qed

section \<open>The states of the pairing passes\<close>

lemma app_candidates_set:
  "set (app_candidates subs na st) =
     {j \<in> set (candidates subs na st). role (subs ! j) = ROLE_APP}"
  by (auto simp: app_candidates_def)

lemma par_candidates_set:
  "set (par_candidates subs na st) =
     {j \<in> set (candidates subs na st). role (subs ! j) = ROLE_PAR}"
  by (auto simp: par_candidates_def)

lemma app_candidates_distinct: "distinct (app_candidates subs na st)"
  unfolding app_candidates_def using candidates_distinct by simp

lemma par_candidates_distinct: "distinct (par_candidates subs na st)"
  unfolding par_candidates_def using candidates_distinct by simp

lemma par_candidates_distinct_ids:
  "distinct (map (\<lambda>i. person_id (subs ! i)) (par_candidates subs na st))"
  unfolding par_candidates_def using candidates_distinct_ids[of subs na st]
  by (rule distinct_map_filter)

lemma app_candidates_distinct_ids:
  "distinct (map (\<lambda>i. person_id (subs ! i)) (app_candidates subs na st))"
  unfolding app_candidates_def using candidates_distinct_ids[of subs na st]
  by (rule distinct_map_filter)

lemma app_par_disjoint:
  "i \<in> set (app_candidates subs na st) \<Longrightarrow> j \<in> set (par_candidates subs na st) \<Longrightarrow> i \<noteq> j"
  unfolding app_candidates_set par_candidates_set using role_app_neq_par by auto

lemma partner_by_id_Some:
  "partner_by_id subs na st p = Some j \<longleftrightarrow>
     j \<in> set (par_candidates subs na st) \<and> person_id (subs ! j) = p"
  unfolding partner_by_id_def by (rule partner_index_Some[OF par_candidates_distinct_ids])

lemma ids_after_missing [simp]:
  "ineligible_ids (after_missing subs na st) = ineligible_ids st"
  by (simp add: after_missing_def reject_missing_partner_eq[OF app_candidates_distinct])

lemma err_after_missing:
  "err (after_missing subs na st) j =
     (if j \<in> set (app_candidates subs na st) \<and> has_partner (subs ! j) = Some WITH_PARTNER
         \<and> dict_get (partner_by_id subs na st) (partner_id (subs ! j)) = None
      then Some E3 else err (after_dedup subs na st) j)"
  by (simp add: after_missing_def reject_missing_partner_eq[OF app_candidates_distinct])

lemma ids_after_conflicts [simp]:
  "ineligible_ids (after_conflicts subs na st) = ineligible_ids st"
  by (simp add: after_conflicts_def resolve_conflicts_eq[OF app_candidates_distinct])

lemma err_after_conflicts:
  "err (after_conflicts subs na st) j =
     (if j \<in> set (conflict_claimants subs na st)
         \<and> j \<noteq> earliest_of subs (partner_group subs (conflict_claimants subs na st) j)
      then Some E3 else err (after_missing subs na st) j)"
  by (simp add: after_conflicts_def conflict_claimants_def
        resolve_conflicts_eq[OF app_candidates_distinct])

lemma conflict_claimants_set:
  "set (conflict_claimants subs na st) =
     {j \<in> set (app_candidates subs na st).
        err (after_missing subs na st) j = None \<and> has_partner (subs ! j) = Some WITH_PARTNER}"
  by (auto simp: conflict_claimants_def claimants_def)

lemma candidates_clean:
  "j \<in> set (candidates subs na st) \<Longrightarrow> err (after_dedup subs na st) j = None"
  unfolding candidates_set by simp

lemma par_candidate_stays_clean:
  assumes "j \<in> set (par_candidates subs na st)"
  shows "err (after_conflicts subs na st) j = None"
proof -
  have c: "j \<in> set (candidates subs na st)" and r: "role (subs ! j) = ROLE_PAR"
    using assms unfolding par_candidates_set by auto
  have na: "j \<notin> set (app_candidates subs na st)"
    unfolding app_candidates_set using r role_app_neq_par by auto
  then have "j \<notin> set (conflict_claimants subs na st)"
    unfolding conflict_claimants_set by simp
  then show ?thesis
    using na candidates_clean[OF c] by (simp add: err_after_conflicts err_after_missing)
qed

lemma survivor_has_partner:
  assumes i: "i \<in> set (app_candidates subs na st)"
      and c: "err (after_conflicts subs na st) i = None"
      and w: "has_partner (subs ! i) = Some WITH_PARTNER"
  shows "\<exists>j. dict_get (partner_by_id subs na st) (partner_id (subs ! i)) = Some j
            \<and> err (after_conflicts subs na st) j = None"
proof -
  from c have m: "err (after_missing subs na st) i = None"
    by (simp add: err_after_conflicts split: if_splits)
  then have "dict_get (partner_by_id subs na st) (partner_id (subs ! i)) \<noteq> None"
    using i w by (auto simp: err_after_missing split: if_splits)
  then obtain j where j: "dict_get (partner_by_id subs na st) (partner_id (subs ! i)) = Some j"
    by auto
  then obtain p where "partner_id (subs ! i) = Some p" "partner_by_id subs na st p = Some j"
    by (auto simp: dict_get_def split: option.splits)
  then have "j \<in> set (par_candidates subs na st)" unfolding partner_by_id_Some by simp
  then have "err (after_conflicts subs na st) j = None" by (rule par_candidate_stays_clean)
  with j show ?thesis by blast
qed

lemma pairs_result_eq:
  "pairs_result subs na st =
     (after_conflicts subs na st,
      {person_id (subs ! j) | i j.
         i \<in> set (survivors subs na st) \<and> partner_of subs (partner_by_id subs na st) i = Some j},
      map (alloc_row_of subs (partner_by_id subs na st)) (survivors subs na st))"
proof -
  have h: "\<forall>i \<in> set (app_candidates subs na st).
             err (after_conflicts subs na st) i = None
               \<and> has_partner (subs ! i) = Some WITH_PARTNER
             \<longrightarrow> (\<exists>j. dict_get (partner_by_id subs na st) (partner_id (subs ! i)) = Some j
                       \<and> err (after_conflicts subs na st) j = None)"
    using survivor_has_partner by blast
  have "{person_id (subs ! j) | i j.
           i \<in> set (app_candidates subs na st) \<and> err (after_conflicts subs na st) i = None
             \<and> partner_of subs (partner_by_id subs na st) i = Some j}
        = {person_id (subs ! j) | i j.
         i \<in> set (survivors subs na st) \<and> partner_of subs (partner_by_id subs na st) i = Some j}"
    by (auto simp: survivors_def)
  then show ?thesis
    unfolding pairs_result_def make_pairs_def make_pairs_fold[OF h] survivors_def by simp
qed

lemma valid_rows_of_eq:
  "valid_rows_of subs na st =
     map (alloc_row_of subs (partner_by_id subs na st)) (survivors subs na st)"
  by (simp add: valid_rows_of_def pairs_result_eq)

lemma ids_after_unpaired [simp]:
  "ineligible_ids (after_unpaired subs na st) = ineligible_ids st"
  by (simp add: after_unpaired_def reject_unpaired_eq[OF par_candidates_distinct] pairs_result_eq)

lemma err_after_unpaired:
  "err (after_unpaired subs na st) j =
     (if j \<in> set (par_candidates subs na st)
         \<and> person_id (subs ! j) \<notin> {person_id (subs ! j) | i j.
               i \<in> set (survivors subs na st)
                 \<and> partner_of subs (partner_by_id subs na st) i = Some j}
      then Some E3 else err (after_conflicts subs na st) j)"
  using par_candidate_stays_clean[of j subs na st]
  by (simp add: after_unpaired_def reject_unpaired_eq[OF par_candidates_distinct] pairs_result_eq)

lemma ids_final_state [simp]:
  "ineligible_ids (final_state subs na st) = ineligible_ids st"
  by (simp add: final_state_def set_success_eq)

lemma err_final_state:
  "err (final_state subs na st) j =
     (if j < length subs \<and> err (after_unpaired subs na st) j = None
      then (if j < na
            then (if person_id (subs ! j) \<in> valid_app_ids (valid_rows_of subs na st)
                  then Some S0 else Some E3)
            else (if person_id (subs ! j) \<in> valid_par_ids (valid_rows_of subs na st)
                  then Some S0 else Some E3))
      else (if j < na \<and> err (after_unpaired subs na st) j = None
            then (if person_id (subs ! j) \<in> valid_app_ids (valid_rows_of subs na st)
                  then Some S0 else Some E3)
            else err (after_unpaired subs na st) j))"
  by (auto simp: final_state_def set_success_eq)

section \<open>Outcomes are assigned once\<close>

lemma keep_validation:
  "err (validate_all subs st) i = Some c \<Longrightarrow> err (after_validation subs na st) i = Some c"
  by (simp add: after_validation_def partner_form_check_eq)

lemma keep_ineligible:
  "err (after_validation subs na st) i = Some c \<Longrightarrow> err (after_ineligible subs na st) i = Some c"
  by (simp add: err_after_ineligible)

lemma keep_dedup:
  "err (after_ineligible subs na st) i = Some c \<Longrightarrow> err (after_dedup subs na st) i = Some c"
  by (simp add: err_after_dedup clean_candidates_set)

lemma keep_missing:
  "err (after_dedup subs na st) i = Some c \<Longrightarrow> err (after_missing subs na st) i = Some c"
  using candidates_clean[of i subs na st]
  by (auto simp: err_after_missing app_candidates_set)

lemma keep_conflicts:
  "err (after_missing subs na st) i = Some c \<Longrightarrow> err (after_conflicts subs na st) i = Some c"
  by (simp add: err_after_conflicts conflict_claimants_set)

lemma keep_unpaired:
  "err (after_conflicts subs na st) i = Some c \<Longrightarrow> err (after_unpaired subs na st) i = Some c"
  using par_candidate_stays_clean[of i subs na st]
  by (auto simp: err_after_unpaired)

lemma keep_success_apps:
  "err (after_unpaired subs na st) i = Some c \<Longrightarrow>
   err (set_success subs [0..<na] (valid_app_ids (valid_rows_of subs na st))
          (after_unpaired subs na st)) i = Some c"
  by (simp add: set_success_eq)

lemma keep_success_pars:
  "err (set_success subs [0..<na] (valid_app_ids (valid_rows_of subs na st))
          (after_unpaired subs na st)) i = Some c \<Longrightarrow>
   err (final_state subs na st) i = Some c"
  by (simp add: final_state_def set_success_eq)

lemma pass_states_keep:
  assumes "q \<in> set (pass_states subs na st)" and "err q i = Some c"
  shows "err (final_state subs na st) i = Some c"
proof -
  note k = keep_validation keep_ineligible keep_dedup keep_missing keep_conflicts
    keep_unpaired keep_success_apps keep_success_pars
  have p: "fst (pairs_result subs na st) = after_conflicts subs na st"
    by (simp add: pairs_result_eq)
  from assms(1) consider
      "q = validate_all subs st" | "q = after_validation subs na st"
    | "q = after_ineligible subs na st" | "q = after_dedup subs na st"
    | "q = after_missing subs na st" | "q = after_conflicts subs na st"
    | "q = after_unpaired subs na st"
    | "q = set_success subs [0..<na] (valid_app_ids (valid_rows_of subs na st))
             (after_unpaired subs na st)"
    | "q = final_state subs na st"
    unfolding pass_states_def p by auto
  then show ?thesis
  proof cases
    case 1 with assms(2) show ?thesis by (intro k) simp
  next
    case 2 with assms(2) show ?thesis by (intro k(2-)) simp
  next
    case 3 with assms(2) show ?thesis by (intro k(3-)) simp
  next
    case 4 with assms(2) show ?thesis by (intro k(4-)) simp
  next
    case 5 with assms(2) show ?thesis by (intro k(5-)) simp
  next
    case 6 with assms(2) show ?thesis by (intro k(6-)) simp
  next
    case 7 with assms(2) show ?thesis by (intro k(7-)) simp
  next
    case 8 with assms(2) show ?thesis by (intro k(8-)) simp
  next
    case 9 with assms(2) show ?thesis by simp
  qed
qed

lemma codes_after_unpaired:
  assumes "i < length subs"
  shows "err (after_unpaired subs na st) i \<in> {None, Some E1, Some E2, Some E3}"
proof -
  have 1: "err (after_validation subs na st) i \<in> {None, Some E1}"
    using after_validation_codes[OF assms, of na st] by auto
  then have 2: "err (after_ineligible subs na st) i \<in> {None, Some E1, Some E2}"
    by (auto simp: err_after_ineligible)
  then have 3: "err (after_dedup subs na st) i \<in> {None, Some E1, Some E2, Some E3}"
    by (auto simp: err_after_dedup)
  then have 4: "err (after_missing subs na st) i \<in> {None, Some E1, Some E2, Some E3}"
    by (auto simp: err_after_missing)
  then have 5: "err (after_conflicts subs na st) i \<in> {None, Some E1, Some E2, Some E3}"
    by (auto simp: err_after_conflicts)
  then show ?thesis
    by (auto simp: err_after_unpaired)
qed

lemma codes_final_state:
  assumes "i < length subs"
  shows "err (final_state subs na st) i \<in> {Some S0, Some E1, Some E2, Some E3}"
  using codes_after_unpaired[OF assms, of na st] assms
  by (auto simp: err_final_state)

lemma process_term_errors:
  "process_term term apps pars ids = (papps, ppars, rows, ids') \<Longrightarrow>
     map error (papps @ ppars) =
       map (err (final_state (apps @ pars) (length apps) (initial_state (apps @ pars) ids)))
           [0..<length (apps @ pars)]"
proof -
  assume a: "process_term term apps pars ids = (papps, ppars, rows, ids')"
  have "[0..<length apps + length pars] = [0..<length apps] @ [length apps..<length apps + length pars]"
    by (metis le_add1 upt_add_eq_append zero_le)
  then show ?thesis
    using a by (auto simp: process_term_def Let_def comp_def)
qed

section \<open>The deduplicator\<close>

lemma person_group_set:
  "set (person_group subs (clean_candidates subs na st) i) =
     {j. j < length subs \<and> err (after_ineligible subs na st) j = None
         \<and> person_id (subs ! j) = person_id (subs ! i)}"
  unfolding person_group_def set_filter clean_candidates_set by auto

lemma order_key_less:
  "timestamp (subs ! a) = timestamp (subs ! b) \<Longrightarrow> row_index (subs ! a) < row_index (subs ! b)
     \<Longrightarrow> order_key subs a < order_key subs b"
  by (simp add: order_key_def)

lemma order_key_less_ts:
  "timestamp (subs ! a) < timestamp (subs ! b) \<Longrightarrow> order_key subs a < order_key subs b"
  by (simp add: order_key_def)

text \<open>
  Claim C3. Take a submission \<open>i\<close> that is clean after the ineligibility filter, and the
  group \<open>G\<close> of all clean submissions of the term, of either role, with the same person
  id. The deduplicator keeps exactly one member \<open>k\<close> of \<open>G\<close>; its key (timestamp, row
  index) is the greatest of the group; every other member gets E3; submissions that
  were not clean keep their code. In particular, of two members with equal timestamps
  the one with the lower row index gets E3, and when they are the whole group the one
  with the higher row index is kept.
\<close>

theorem dedup_keeps_latest:
  assumes "i < length subs" and "err (after_ineligible subs na st) i = None"
  shows "\<exists>k. k < length subs \<and> err (after_ineligible subs na st) k = None
            \<and> person_id (subs ! k) = person_id (subs ! i)
            \<and> err (after_dedup subs na st) k = None
            \<and> (\<forall>j. j < length subs \<and> err (after_ineligible subs na st) j = None
                    \<and> person_id (subs ! j) = person_id (subs ! i)
                  \<longrightarrow> order_key subs j \<le> order_key subs k
                      \<and> (j \<noteq> k \<longrightarrow> err (after_dedup subs na st) j = Some E3))
            \<and> (\<forall>a b. a < length subs \<and> err (after_ineligible subs na st) a = None
                    \<and> person_id (subs ! a) = person_id (subs ! i)
                    \<and> b < length subs \<and> err (after_ineligible subs na st) b = None
                    \<and> person_id (subs ! b) = person_id (subs ! i)
                    \<and> timestamp (subs ! a) = timestamp (subs ! b)
                    \<and> row_index (subs ! a) < row_index (subs ! b)
                  \<longrightarrow> err (after_dedup subs na st) a = Some E3 \<and> b \<noteq> a
                      \<and> ((\<forall>j. j < length subs \<and> err (after_ineligible subs na st) j = None
                               \<and> person_id (subs ! j) = person_id (subs ! i)
                             \<longrightarrow> j = a \<or> j = b)
                           \<longrightarrow> err (after_dedup subs na st) b = None))
            \<and> (\<forall>j. err (after_ineligible subs na st) j \<noteq> None
                  \<longrightarrow> err (after_dedup subs na st) j = err (after_ineligible subs na st) j)"
proof -
  let ?c = "clean_candidates subs na st"
  let ?g = "person_group subs ?c i"
  let ?k = "latest_of subs ?g"
  let ?G = "\<lambda>j. j < length subs \<and> err (after_ineligible subs na st) j = None
                \<and> person_id (subs ! j) = person_id (subs ! i)"
  have ic: "i \<in> set ?c" using assms by (simp add: clean_candidates_set)
  have G: "\<And>j. j \<in> set ?g \<longleftrightarrow> ?G j" unfolding person_group_set by simp
  have kg: "?k \<in> set ?g" using ic by (rule latest_of_group)
  then have Gk: "?G ?k" unfolding G .
  have grp: "\<And>j. ?G j \<Longrightarrow> person_group subs ?c j = ?g"
    unfolding G[symmetric] by (rule person_group_eq)
  have inc: "\<And>j. ?G j \<Longrightarrow> j \<in> set ?c" by (simp add: clean_candidates_set)
  have dd: "err (after_dedup subs na st) j = (if j \<noteq> ?k then Some E3 else None)"
    if "?G j" for j
  proof -
    have "err (after_dedup subs na st) j =
            (if j \<in> set ?c \<and> j \<noteq> latest_of subs (person_group subs ?c j)
             then Some E3 else err (after_ineligible subs na st) j)"
      by (rule err_after_dedup)
    then have e: "err (after_dedup subs na st) j =
            (if j \<noteq> ?k then Some E3 else err (after_ineligible subs na st) j)"
      using grp[OF that] inc[OF that] by simp
    have n: "err (after_ineligible subs na st) j = None" using that by blast
    show ?thesis unfolding e n ..
  qed
  have mx: "\<And>j. ?G j \<Longrightarrow> order_key subs j \<le> order_key subs ?k"
    unfolding G[symmetric] latest_of_def by (rule last_sort_key_max)
  have tie: "\<And>a b. ?G a \<Longrightarrow> ?G b \<Longrightarrow> timestamp (subs ! a) = timestamp (subs ! b)
               \<Longrightarrow> row_index (subs ! a) < row_index (subs ! b) \<Longrightarrow> a \<noteq> ?k \<and> b \<noteq> a"
  proof -
    fix a b assume a: "?G a" and b: "?G b"
      and t: "timestamp (subs ! a) = timestamp (subs ! b)"
      and r: "row_index (subs ! a) < row_index (subs ! b)"
    have "order_key subs a < order_key subs b" using t r by (rule order_key_less)
    moreover have "order_key subs b \<le> order_key subs ?k" using b by (rule mx)
    ultimately have "order_key subs a < order_key subs ?k" by simp
    then show "a \<noteq> ?k \<and> b \<noteq> a" using r by auto
  qed
  have other: "\<And>j. err (after_ineligible subs na st) j \<noteq> None
                 \<Longrightarrow> err (after_dedup subs na st) j = err (after_ineligible subs na st) j"
    by (simp add: err_after_dedup clean_candidates_set)
  show ?thesis
  proof (intro exI[of _ ?k] conjI allI impI)
    show "?k < length subs" "err (after_ineligible subs na st) ?k = None"
      "person_id (subs ! ?k) = person_id (subs ! i)" using Gk by simp_all
    show "err (after_dedup subs na st) ?k = None" using dd[OF Gk] by simp
  next
    fix j assume "?G j"
    then show "order_key subs j \<le> order_key subs ?k" by (rule mx)
  next
    fix j assume "?G j" "j \<noteq> ?k"
    then show "err (after_dedup subs na st) j = Some E3" using dd by simp
  next
    fix a b
    assume h: "a < length subs \<and> err (after_ineligible subs na st) a = None
                    \<and> person_id (subs ! a) = person_id (subs ! i)
                    \<and> b < length subs \<and> err (after_ineligible subs na st) b = None
                    \<and> person_id (subs ! b) = person_id (subs ! i)
                    \<and> timestamp (subs ! a) = timestamp (subs ! b)
                    \<and> row_index (subs ! a) < row_index (subs ! b)"
    then have a: "?G a" and b: "?G b" by simp_all
    from tie[OF a b] h have t: "a \<noteq> ?k" "b \<noteq> a" by simp_all
    show "err (after_dedup subs na st) a = Some E3" using dd[OF a] t by simp
    show "b \<noteq> a" by (rule t)
    assume "\<forall>j. j < length subs \<and> err (after_ineligible subs na st) j = None
                               \<and> person_id (subs ! j) = person_id (subs ! i)
                             \<longrightarrow> j = a \<or> j = b"
    then have "?k = a \<or> ?k = b" using Gk by blast
    then have "?k = b" using t by simp
    then show "err (after_dedup subs na st) b = None" using dd[OF b] by simp
  next
    fix j assume "err (after_ineligible subs na st) j \<noteq> None"
    then show "err (after_dedup subs na st) j = err (after_ineligible subs na st) j"
      by (rule other)
  qed
qed

section \<open>The conflict resolution of the pairing resolver\<close>

lemma partner_group_set:
  "set (partner_group subs (conflict_claimants subs na st) i) =
     {j \<in> set (app_candidates subs na st).
        err (after_missing subs na st) j = None \<and> has_partner (subs ! j) = Some WITH_PARTNER
        \<and> partner_id (subs ! j) = partner_id (subs ! i)}"
  unfolding partner_group_def set_filter conflict_claimants_set by auto

lemma partner_group_eq:
  "j \<in> set (partner_group subs xs i) \<Longrightarrow> partner_group subs xs j = partner_group subs xs i"
  by (simp add: partner_group_def)

lemma app_candidate_not_par:
  "k \<in> set (app_candidates subs na st) \<Longrightarrow> k \<notin> set (par_candidates subs na st)"
  using app_par_disjoint by blast

lemma survivor_row:
  assumes k: "k \<in> set (app_candidates subs na st)"
      and c: "err (after_conflicts subs na st) k = None"
      and w: "has_partner (subs ! k) = Some WITH_PARTNER"
  shows "\<exists>j. j \<in> set (par_candidates subs na st)
            \<and> partner_id (subs ! k) = Some (person_id (subs ! j))
            \<and> partner_of subs (partner_by_id subs na st) k = Some j
            \<and> (person_id (subs ! k), person_name (subs ! k), person_id (subs ! j),
                person_name (subs ! j), floor_or_0 (floor (subs ! k)))
                 \<in> set (valid_rows_of subs na st)"
proof -
  from survivor_has_partner[OF k c w] obtain j where
    j: "dict_get (partner_by_id subs na st) (partner_id (subs ! k)) = Some j" by blast
  then obtain p where p: "partner_id (subs ! k) = Some p" "partner_by_id subs na st p = Some j"
    by (auto simp: dict_get_def split: option.splits)
  then have jp: "j \<in> set (par_candidates subs na st)" "person_id (subs ! j) = p"
    unfolding partner_by_id_Some by simp_all
  have ks: "k \<in> set (survivors subs na st)" using k c by (simp add: survivors_def)
  have "alloc_row_of subs (partner_by_id subs na st) k =
          (person_id (subs ! k), person_name (subs ! k), person_id (subs ! j),
           person_name (subs ! j), floor_or_0 (floor (subs ! k)))"
    using w j by (simp add: alloc_row_of_def)
  then have "(person_id (subs ! k), person_name (subs ! k), person_id (subs ! j),
                person_name (subs ! j), floor_or_0 (floor (subs ! k)))
                 \<in> set (valid_rows_of subs na st)"
    unfolding valid_rows_of_eq using ks by (metis image_eqI set_map)
  moreover have "partner_of subs (partner_by_id subs na st) k = Some j"
    using w j by (simp add: partner_of_def)
  ultimately show ?thesis using jp p by blast
qed

lemma survivor_success:
  assumes k: "k \<in> set (app_candidates subs na st)"
      and c: "err (after_conflicts subs na st) k = None"
      and n: "k < na"
  shows "err (final_state subs na st) k = Some S0"
proof -
  have kn: "k < length subs" using k unfolding app_candidates_set candidates_set by simp
  have u: "err (after_unpaired subs na st) k = None"
    using app_candidate_not_par[OF k] c by (simp add: err_after_unpaired)
  have ks: "k \<in> set (survivors subs na st)" using k c by (simp add: survivors_def)
  have "fst (alloc_row_of subs (partner_by_id subs na st) k) = person_id (subs ! k)"
    by (simp add: alloc_row_of_def split: option.splits)
  then have "person_id (subs ! k) \<in> valid_app_ids (valid_rows_of subs na st)"
    unfolding valid_app_ids_def valid_rows_of_eq set_map map_map
    using ks by (metis comp_apply image_eqI)
  then show ?thesis using kn u n by (simp add: err_final_state)
qed

lemma conflict_facts:
  assumes "i \<in> set (app_candidates subs na st)"
      and "err (after_missing subs na st) i = None"
      and "has_partner (subs ! i) = Some WITH_PARTNER"
  shows "\<exists>k. k \<in> set (app_candidates subs na st) \<and> err (after_missing subs na st) k = None
            \<and> has_partner (subs ! k) = Some WITH_PARTNER
            \<and> partner_id (subs ! k) = partner_id (subs ! i)
            \<and> err (after_conflicts subs na st) k = None
            \<and> (\<exists>j. j \<in> set (par_candidates subs na st)
                  \<and> partner_id (subs ! k) = Some (person_id (subs ! j))
                  \<and> (person_id (subs ! k), person_name (subs ! k), person_id (subs ! j),
                      person_name (subs ! j), floor_or_0 (floor (subs ! k)))
                       \<in> set (valid_rows_of subs na st))
            \<and> (k < na \<longrightarrow> err (final_state subs na st) k = Some S0)
            \<and> (\<forall>j. j \<in> set (app_candidates subs na st)
                    \<and> err (after_missing subs na st) j = None
                    \<and> has_partner (subs ! j) = Some WITH_PARTNER
                    \<and> partner_id (subs ! j) = partner_id (subs ! i)
                  \<longrightarrow> order_key subs k \<le> order_key subs j
                      \<and> (j \<noteq> k \<longrightarrow> err (after_conflicts subs na st) j = Some E3
                                   \<and> err (final_state subs na st) j = Some E3))
            \<and> (\<forall>a b. a \<in> set (app_candidates subs na st)
                    \<and> err (after_missing subs na st) a = None
                    \<and> has_partner (subs ! a) = Some WITH_PARTNER
                    \<and> partner_id (subs ! a) = partner_id (subs ! i)
                    \<and> b \<in> set (app_candidates subs na st)
                    \<and> err (after_missing subs na st) b = None
                    \<and> has_partner (subs ! b) = Some WITH_PARTNER
                    \<and> partner_id (subs ! b) = partner_id (subs ! i)
                    \<and> timestamp (subs ! a) < timestamp (subs ! b)
                  \<longrightarrow> err (after_conflicts subs na st) b = Some E3
                      \<and> err (final_state subs na st) b = Some E3
                      \<and> ((\<forall>j. j \<in> set (app_candidates subs na st)
                               \<and> err (after_missing subs na st) j = None
                               \<and> has_partner (subs ! j) = Some WITH_PARTNER
                               \<and> partner_id (subs ! j) = partner_id (subs ! i)
                             \<longrightarrow> j = a \<or> j = b)
                           \<longrightarrow> a = k))"
proof -
  let ?L = "conflict_claimants subs na st"
  let ?g = "partner_group subs ?L i"
  let ?k = "earliest_of subs ?g"
  let ?G = "\<lambda>j. j \<in> set (app_candidates subs na st)
                    \<and> err (after_missing subs na st) j = None
                    \<and> has_partner (subs ! j) = Some WITH_PARTNER
                    \<and> partner_id (subs ! j) = partner_id (subs ! i)"
  have G: "\<And>j. j \<in> set ?g \<longleftrightarrow> ?G j" unfolding partner_group_set by simp
  have iL: "i \<in> set ?L" using assms by (simp add: conflict_claimants_set)
  have ne: "?g \<noteq> []" using iL by (rule partner_group_nonempty)
  have kg: "?k \<in> set ?g" using ne by (rule earliest_of_in)
  then have Gk: "?G ?k" unfolding G .
  have grp: "\<And>j. ?G j \<Longrightarrow> partner_group subs ?L j = ?g"
    unfolding G[symmetric] by (rule partner_group_eq)
  have inL: "\<And>j. ?G j \<Longrightarrow> j \<in> set ?L" by (simp add: conflict_claimants_set)
  have cf: "err (after_conflicts subs na st) j = (if j \<noteq> ?k then Some E3 else None)"
    if "?G j" for j
  proof -
    have "err (after_conflicts subs na st) j =
            (if j \<in> set ?L \<and> j \<noteq> earliest_of subs (partner_group subs ?L j)
             then Some E3 else err (after_missing subs na st) j)"
      by (rule err_after_conflicts)
    then have e: "err (after_conflicts subs na st) j =
            (if j \<noteq> ?k then Some E3 else err (after_missing subs na st) j)"
      using grp[OF that] inL[OF that] by simp
    have n: "err (after_missing subs na st) j = None" using that by blast
    show ?thesis unfolding e n ..
  qed
  have fin: "err (final_state subs na st) j = Some E3" if "?G j" "j \<noteq> ?k" for j
  proof -
    have "err (after_conflicts subs na st) j = Some E3" using cf[OF that(1)] that(2) by simp
    then have "err (after_unpaired subs na st) j = Some E3" by (rule keep_unpaired)
    then have "err (set_success subs [0..<na] (valid_app_ids (valid_rows_of subs na st))
          (after_unpaired subs na st)) j = Some E3" by (rule keep_success_apps)
    then show ?thesis by (rule keep_success_pars)
  qed
  have mn: "\<And>j. ?G j \<Longrightarrow> order_key subs ?k \<le> order_key subs j"
    unfolding G[symmetric] earliest_of_def by (rule hd_sort_key_min)
  have ck: "err (after_conflicts subs na st) ?k = None" using cf[OF Gk] by simp
  have later: "b \<noteq> ?k" if "?G a" "?G b" "timestamp (subs ! a) < timestamp (subs ! b)" for a b
  proof -
    have "order_key subs a < order_key subs b" using that(3) by (rule order_key_less_ts)
    moreover have "order_key subs ?k \<le> order_key subs a" using that(1) by (rule mn)
    ultimately have "order_key subs ?k < order_key subs b" by simp
    then show ?thesis by auto
  qed
  from survivor_row[of ?k subs na st] Gk ck obtain j where
    j: "j \<in> set (par_candidates subs na st)"
       "partner_id (subs ! ?k) = Some (person_id (subs ! j))"
       "(person_id (subs ! ?k), person_name (subs ! ?k), person_id (subs ! j),
                person_name (subs ! j), floor_or_0 (floor (subs ! ?k)))
                 \<in> set (valid_rows_of subs na st)" by blast
  show ?thesis
  proof (rule exI[of _ ?k], intro conjI allI impI)
    show "?k \<in> set (app_candidates subs na st)" "err (after_missing subs na st) ?k = None"
      "has_partner (subs ! ?k) = Some WITH_PARTNER"
      "partner_id (subs ! ?k) = partner_id (subs ! i)" using Gk by simp_all
    show "err (after_conflicts subs na st) ?k = None" by (rule ck)
    show "\<exists>j. j \<in> set (par_candidates subs na st)
                  \<and> partner_id (subs ! ?k) = Some (person_id (subs ! j))
                  \<and> (person_id (subs ! ?k), person_name (subs ! ?k), person_id (subs ! j),
                      person_name (subs ! j), floor_or_0 (floor (subs ! ?k)))
                       \<in> set (valid_rows_of subs na st)" using j by blast
  next
    assume "?k < na"
    then show "err (final_state subs na st) ?k = Some S0"
      using survivor_success[of ?k subs na st] Gk ck by simp
  next
    fix j assume "?G j"
    then show "order_key subs ?k \<le> order_key subs j" by (rule mn)
  next
    fix j assume g: "?G j" and n: "j \<noteq> ?k"
    show "err (after_conflicts subs na st) j = Some E3" using cf[OF g] n by simp
    show "err (final_state subs na st) j = Some E3" using g n by (rule fin)
  next
    fix a b
    assume h: "a \<in> set (app_candidates subs na st)
                    \<and> err (after_missing subs na st) a = None
                    \<and> has_partner (subs ! a) = Some WITH_PARTNER
                    \<and> partner_id (subs ! a) = partner_id (subs ! i)
                    \<and> b \<in> set (app_candidates subs na st)
                    \<and> err (after_missing subs na st) b = None
                    \<and> has_partner (subs ! b) = Some WITH_PARTNER
                    \<and> partner_id (subs ! b) = partner_id (subs ! i)
                    \<and> timestamp (subs ! a) < timestamp (subs ! b)"
    then have a: "?G a" and b: "?G b" and t: "timestamp (subs ! a) < timestamp (subs ! b)"
      by simp_all
    have bk: "b \<noteq> ?k" using a b t by (rule later)
    show "err (after_conflicts subs na st) b = Some E3" using cf[OF b] bk by simp
    show "err (final_state subs na st) b = Some E3" using b bk by (rule fin)
    assume "\<forall>j. j \<in> set (app_candidates subs na st)
                               \<and> err (after_missing subs na st) j = None
                               \<and> has_partner (subs ! j) = Some WITH_PARTNER
                               \<and> partner_id (subs ! j) = partner_id (subs ! i)
                             \<longrightarrow> j = a \<or> j = b"
    then have "?k = a \<or> ?k = b" using Gk by blast
    then show "a = ?k" using bk by auto
  qed
qed

text \<open>
  Claim C4. Take an applicant candidate \<open>i\<close> that needs a partner and is still clean
  after the missing-partner pass, and the group \<open>G\<close> of all such candidates naming the
  same partner id. The conflict resolution keeps exactly one member \<open>k\<close> of \<open>G\<close>; its
  key (timestamp, row index) is the least of the group; \<open>k\<close> is paired, that is, the
  row of \<open>k\<close> with the named partner is among the rows of the term (and \<open>k\<close> ends with
  S0 when it is in the applicant list); every other member gets E3 and ends the term
  with E3. In particular, of two members with different timestamps the later one gets
  E3, and when they are the whole group the earlier one is the member that is paired.
\<close>

theorem conflict_keeps_earliest:
  assumes "i \<in> set (app_candidates subs na st)"
      and "err (after_missing subs na st) i = None"
      and "has_partner (subs ! i) = Some WITH_PARTNER"
  shows "\<exists>k. k \<in> set (app_candidates subs na st) \<and> err (after_missing subs na st) k = None
            \<and> has_partner (subs ! k) = Some WITH_PARTNER
            \<and> partner_id (subs ! k) = partner_id (subs ! i)
            \<and> err (after_conflicts subs na st) k = None
            \<and> (\<exists>j. j \<in> set (par_candidates subs na st)
                  \<and> partner_id (subs ! k) = Some (person_id (subs ! j))
                  \<and> (person_id (subs ! k), person_name (subs ! k), person_id (subs ! j),
                      person_name (subs ! j), floor_or_0 (floor (subs ! k)))
                       \<in> set (valid_rows_of subs na st))
            \<and> (k < na \<longrightarrow> err (final_state subs na st) k = Some S0)
            \<and> (\<forall>j. j \<in> set (app_candidates subs na st)
                    \<and> err (after_missing subs na st) j = None
                    \<and> has_partner (subs ! j) = Some WITH_PARTNER
                    \<and> partner_id (subs ! j) = partner_id (subs ! i)
                  \<longrightarrow> order_key subs k \<le> order_key subs j
                      \<and> (j \<noteq> k \<longrightarrow> err (after_conflicts subs na st) j = Some E3
                                   \<and> err (final_state subs na st) j = Some E3))
            \<and> (\<forall>a b. a \<in> set (app_candidates subs na st)
                    \<and> err (after_missing subs na st) a = None
                    \<and> has_partner (subs ! a) = Some WITH_PARTNER
                    \<and> partner_id (subs ! a) = partner_id (subs ! i)
                    \<and> b \<in> set (app_candidates subs na st)
                    \<and> err (after_missing subs na st) b = None
                    \<and> has_partner (subs ! b) = Some WITH_PARTNER
                    \<and> partner_id (subs ! b) = partner_id (subs ! i)
                    \<and> timestamp (subs ! a) < timestamp (subs ! b)
                  \<longrightarrow> err (after_conflicts subs na st) b = Some E3
                      \<and> err (final_state subs na st) b = Some E3
                      \<and> ((\<forall>j. j \<in> set (app_candidates subs na st)
                               \<and> err (after_missing subs na st) j = None
                               \<and> has_partner (subs ! j) = Some WITH_PARTNER
                               \<and> partner_id (subs ! j) = partner_id (subs ! i)
                             \<longrightarrow> j = a \<or> j = b)
                           \<longrightarrow> a = k))"
  using assms by (rule conflict_facts)

section \<open>The allocation rows\<close>

lemma validation_None:
  assumes "apply_input_validation s = None"
  shows "person_id s \<noteq> []" and "person_name s \<noteq> []" and "is_valid_student_id (person_id s)"
    and "role s = ROLE_APP \<Longrightarrow> floor s \<noteq> None"
    and "role s = ROLE_APP \<Longrightarrow> has_partner s \<noteq> Some WITH_PARTNER
           \<Longrightarrow> \<not> truthy (partner_id s) \<and> \<not> truthy (partner_name s)"
    and "role s = ROLE_APP \<Longrightarrow> has_partner s = Some WITH_PARTNER
           \<Longrightarrow> \<exists>p. partner_id s = Some p \<and> p \<noteq> [] \<and> is_valid_student_id p"
  using assms unfolding apply_input_validation_def
  by (auto simp: truthy_def split: if_splits option.splits)

lemma clean_after_dedup_valid:
  assumes "k < length subs" and "err (after_dedup subs na st) k = None"
  shows "apply_input_validation (subs ! k) = None"
proof -
  have "err (after_ineligible subs na st) k = None"
    using keep_dedup[of subs na st k] assms(2) by (cases "err (after_ineligible subs na st) k") auto
  then have "err (after_validation subs na st) k = None"
    using keep_ineligible[of subs na st k] by (cases "err (after_validation subs na st) k") auto
  then show ?thesis using assms(1) by (rule after_validation_clean[rotated])
qed

lemma candidate_valid:
  assumes "k \<in> set (candidates subs na st)"
  shows "k < length subs" and "apply_input_validation (subs ! k) = None"
  using assms clean_after_dedup_valid[of k subs na st] unfolding candidates_set by simp_all

lemma survivor_facts:
  assumes "k \<in> set (survivors subs na st)"
  shows "k \<in> set (app_candidates subs na st)" and "err (after_conflicts subs na st) k = None"
    and "k \<in> set (candidates subs na st)" and "role (subs ! k) = ROLE_APP"
  using assms by (simp_all add: survivors_def app_candidates_set)

lemma survivor_row_shape:
  assumes k: "k \<in> set (survivors subs na st)"
  shows "alloc_row_of subs (partner_by_id subs na st) k =
           (person_id (subs ! k), person_name (subs ! k), [], [], floor_or_0 (floor (subs ! k)))
           \<and> has_partner (subs ! k) \<noteq> Some WITH_PARTNER
         \<or> (\<exists>j. j \<in> set (par_candidates subs na st)
              \<and> has_partner (subs ! k) = Some WITH_PARTNER
              \<and> partner_id (subs ! k) = Some (person_id (subs ! j))
              \<and> alloc_row_of subs (partner_by_id subs na st) k =
                  (person_id (subs ! k), person_name (subs ! k), person_id (subs ! j),
                   person_name (subs ! j), floor_or_0 (floor (subs ! k))))"
proof (cases "has_partner (subs ! k) = Some WITH_PARTNER")
  case False
  then show ?thesis by (simp add: alloc_row_of_def)
next
  case True
  from survivor_row[OF survivor_facts(1,2)[OF k] True] obtain j where
    j: "j \<in> set (par_candidates subs na st)"
       "partner_id (subs ! k) = Some (person_id (subs ! j))"
       "partner_of subs (partner_by_id subs na st) k = Some j" by blast
  then have "alloc_row_of subs (partner_by_id subs na st) k =
                  (person_id (subs ! k), person_name (subs ! k), person_id (subs ! j),
                   person_name (subs ! j), floor_or_0 (floor (subs ! k)))"
    by (simp add: alloc_row_of_def partner_of_def)
  with j True show ?thesis by blast
qed

lemma par_candidate_valid:
  assumes "j \<in> set (par_candidates subs na st)"
  shows "person_id (subs ! j) \<noteq> []" and "person_name (subs ! j) \<noteq> []"
    and "is_valid_student_id (person_id (subs ! j))"
proof -
  have "j \<in> set (candidates subs na st)" using assms unfolding par_candidates_set by simp
  then have "apply_input_validation (subs ! j) = None" by (rule candidate_valid)
  then show "person_id (subs ! j) \<noteq> []" and "person_name (subs ! j) \<noteq> []"
    and "is_valid_student_id (person_id (subs ! j))" by (rule validation_None)+
qed

lemma process_term_rows:
  "process_term term apps pars ids = (papps, ppars, rows, ids') \<Longrightarrow>
     rows = valid_rows_of (apps @ pars) (length apps) (initial_state (apps @ pars) ids)"
  by (auto simp: process_term_def Let_def)

lemma row_wellformed:
  assumes fl: "\<forall>s \<in> set subs. \<forall>f. floor s = Some f \<longrightarrow> 2 \<le> f \<and> f \<le> 6"
      and r: "(aid, aname, pid, pname, f) \<in> set (valid_rows_of subs na st)"
  shows "2 \<le> f \<and> f \<le> 6 \<and> aid \<noteq> [] \<and> is_valid_student_id aid \<and>
         (pid = [] \<and> pname = [] \<or> pid \<noteq> [] \<and> pname \<noteq> [] \<and> is_valid_student_id pid)"
proof -
  let ?m = "partner_by_id subs na st"
  from r obtain k where k: "k \<in> set (survivors subs na st)"
    and row: "alloc_row_of subs ?m k = (aid, aname, pid, pname, f)"
    unfolding valid_rows_of_eq by auto
  have kn: "k < length subs" and v: "apply_input_validation (subs ! k) = None"
    using candidate_valid[OF survivor_facts(3)[OF k]] by simp_all
  have ra: "role (subs ! k) = ROLE_APP" using k by (rule survivor_facts)
  from validation_None(4)[OF v ra] obtain g where g: "floor (subs ! k) = Some g" by auto
  have "subs ! k \<in> set subs" using kn by simp
  with fl g have gr: "2 \<le> g \<and> g \<le> 6" by blast
  then have fo: "floor_or_0 (floor (subs ! k)) = g" by (simp add: floor_or_0_def g)
  have a: "person_id (subs ! k) \<noteq> [] \<and> is_valid_student_id (person_id (subs ! k))"
    using validation_None(1,3)[OF v] by simp
  from survivor_row_shape[OF k] show ?thesis
  proof
    assume "alloc_row_of subs ?m k =
           (person_id (subs ! k), person_name (subs ! k), [], [], floor_or_0 (floor (subs ! k)))
           \<and> has_partner (subs ! k) \<noteq> Some WITH_PARTNER"
    then show ?thesis using row a gr fo by simp
  next
    assume "\<exists>j. j \<in> set (par_candidates subs na st)
              \<and> has_partner (subs ! k) = Some WITH_PARTNER
              \<and> partner_id (subs ! k) = Some (person_id (subs ! j))
              \<and> alloc_row_of subs ?m k =
                  (person_id (subs ! k), person_name (subs ! k), person_id (subs ! j),
                   person_name (subs ! j), floor_or_0 (floor (subs ! k)))"
    then obtain j where j: "j \<in> set (par_candidates subs na st)"
      and rj: "alloc_row_of subs ?m k =
                  (person_id (subs ! k), person_name (subs ! k), person_id (subs ! j),
                   person_name (subs ! j), floor_or_0 (floor (subs ! k)))" by blast
    show ?thesis using row rj a gr fo par_candidate_valid[OF j] by simp
  qed
qed

text \<open>
  Claim C9. When every floor preference of the submissions is absent or in 2..6, as the
  record normalizer leaves it (lemma \<open>parse_floor_range\<close>), every row that
  \<open>process_term\<close> emits has a floor in 2..6, a non-empty applicant id of the student-ID
  format, and a partner id and partner name that are both empty or both non-empty, the
  partner id of the student-ID format.
\<close>

theorem allocation_rows_wellformed:
  assumes "\<forall>s \<in> set (apps @ pars). \<forall>f. floor s = Some f \<longrightarrow> 2 \<le> f \<and> f \<le> 6"
      and "process_term term apps pars ids = (papps, ppars, rows, ids')"
  shows "\<forall>(aid, aname, pid, pname, f) \<in> set rows.
           2 \<le> f \<and> f \<le> 6 \<and> aid \<noteq> [] \<and> is_valid_student_id aid \<and>
           (pid = [] \<and> pname = [] \<or> pid \<noteq> [] \<and> pname \<noteq> [] \<and> is_valid_student_id pid)"
  using row_wellformed[OF assms(1)] unfolding process_term_rows[OF assms(2)] by blast

section \<open>One acceptance per person\<close>

lemma candidates_inj:
  assumes "i \<in> set (candidates subs na st)" "j \<in> set (candidates subs na st)"
      and "person_id (subs ! i) = person_id (subs ! j)"
  shows "i = j"
  using candidates_distinct_ids[of subs na st] assms
  by (auto simp: distinct_map inj_on_def)

lemma survivor_is_earliest:
  assumes k: "k \<in> set (survivors subs na st)"
      and w: "has_partner (subs ! k) = Some WITH_PARTNER"
  shows "k \<in> set (conflict_claimants subs na st)"
    and "k = earliest_of subs (partner_group subs (conflict_claimants subs na st) k)"
proof -
  have c: "err (after_conflicts subs na st) k = None" using k by (rule survivor_facts)
  then have m: "err (after_missing subs na st) k = None"
    by (simp add: err_after_conflicts split: if_splits)
  show L: "k \<in> set (conflict_claimants subs na st)"
    using survivor_facts(1)[OF k] m w by (simp add: conflict_claimants_set)
  show "k = earliest_of subs (partner_group subs (conflict_claimants subs na st) k)"
    using c L by (simp add: err_after_conflicts split: if_splits)
qed

lemma survivors_same_partner:
  assumes "k \<in> set (survivors subs na st)" "k' \<in> set (survivors subs na st)"
      and "has_partner (subs ! k) = Some WITH_PARTNER"
      and "has_partner (subs ! k') = Some WITH_PARTNER"
      and "partner_id (subs ! k) = partner_id (subs ! k')"
  shows "k = k'"
proof -
  have "partner_group subs (conflict_claimants subs na st) k =
        partner_group subs (conflict_claimants subs na st) k'"
    using assms(5) by (simp add: partner_group_def)
  then show ?thesis
    using survivor_is_earliest(2)[OF assms(1,3)] survivor_is_earliest(2)[OF assms(2,4)]
    by simp
qed

lemma survivors_distinct: "distinct (survivors subs na st)"
  unfolding survivors_def using app_candidates_distinct by simp

lemma row_partner_field:
  assumes k: "k \<in> set (survivors subs na st)"
      and ne: "fst (snd (snd (alloc_row_of subs (partner_by_id subs na st) k))) \<noteq> []"
  shows "has_partner (subs ! k) = Some WITH_PARTNER"
    and "partner_id (subs ! k) =
           Some (fst (snd (snd (alloc_row_of subs (partner_by_id subs na st) k))))"
    and "\<exists>j \<in> set (par_candidates subs na st).
           person_id (subs ! j) = fst (snd (snd (alloc_row_of subs (partner_by_id subs na st) k)))"
  using survivor_row_shape[OF k] ne by auto

lemma rows_distinct_ids:
  "distinct (map fst (valid_rows_of subs na st) @
             filter (\<lambda>p. p \<noteq> []) (map (\<lambda>r. fst (snd (snd r))) (valid_rows_of subs na st)))"
proof -
  let ?m = "partner_by_id subs na st"
  let ?S = "survivors subs na st"
  let ?a = "alloc_row_of subs ?m"
  let ?third = "\<lambda>k. fst (snd (snd (?a k)))"
  have fst_row: "\<And>k. fst (?a k) = person_id (subs ! k)"
    by (simp add: alloc_row_of_def split: option.splits)
  have apps: "map fst (valid_rows_of subs na st) = map (\<lambda>k. person_id (subs ! k)) ?S"
    unfolding valid_rows_of_eq by (simp add: fst_row comp_def)
  have d1: "distinct (map (\<lambda>k. person_id (subs ! k)) ?S)"
    unfolding survivors_def using app_candidates_distinct_ids[of subs na st]
    by (rule distinct_map_filter)
  have pars: "filter (\<lambda>p. p \<noteq> []) (map (\<lambda>r. fst (snd (snd r))) (valid_rows_of subs na st))
                = map ?third (filter (\<lambda>k. ?third k \<noteq> []) ?S)"
    unfolding valid_rows_of_eq by (simp add: filter_map comp_def)
  have inj: "inj_on ?third (set (filter (\<lambda>k. ?third k \<noteq> []) ?S))"
  proof (rule inj_onI)
    fix k k'
    assume k: "k \<in> set (filter (\<lambda>k. ?third k \<noteq> []) ?S)"
      and k': "k' \<in> set (filter (\<lambda>k. ?third k \<noteq> []) ?S)" and e: "?third k = ?third k'"
    from k have ks: "k \<in> set ?S" and kn: "?third k \<noteq> []" by simp_all
    from k' have ks': "k' \<in> set ?S" and kn': "?third k' \<noteq> []" by simp_all
    show "k = k'"
      using survivors_same_partner[OF ks ks' row_partner_field(1)[OF ks kn]
          row_partner_field(1)[OF ks' kn']]
        row_partner_field(2)[OF ks kn] row_partner_field(2)[OF ks' kn'] e by simp
  qed
  have d2: "distinct (map ?third (filter (\<lambda>k. ?third k \<noteq> []) ?S))"
    using survivors_distinct inj by (simp add: distinct_map)
  have disj: "set (map (\<lambda>k. person_id (subs ! k)) ?S)
                \<inter> set (map ?third (filter (\<lambda>k. ?third k \<noteq> []) ?S)) = {}"
  proof (rule ccontr)
    assume "\<not> ?thesis"
    then obtain k k' where ks: "k \<in> set ?S" and ks': "k' \<in> set ?S"
      and kn': "?third k' \<noteq> []" and e: "person_id (subs ! k) = ?third k'"
      by auto
    from row_partner_field(3)[OF ks' kn'] obtain j where
      j: "j \<in> set (par_candidates subs na st)" "person_id (subs ! j) = ?third k'" by blast
    have jc: "j \<in> set (candidates subs na st)" using j(1) unfolding par_candidates_set by simp
    have kc: "k \<in> set (candidates subs na st)" using ks by (rule survivor_facts)
    have "person_id (subs ! k) = person_id (subs ! j)" unfolding e j(2) ..
    with kc jc have "k = j" by (rule candidates_inj)
    then show False using app_par_disjoint[OF survivor_facts(1)[OF ks] j(1)] by simp
  qed
  show ?thesis unfolding apps pars using d1 d2 disj by simp
qed

lemma S0_not_rejection: "S0 \<noteq> E1" "S0 \<noteq> E2" "S0 \<noteq> E3"
  by (simp_all add: S0_def E1_def E2_def E3_def ascii_def)

lemma success_is_candidate:
  assumes "i < length subs" and "err (final_state subs na st) i = Some S0"
  shows "i \<in> set (candidates subs na st)"
proof -
  have u: "err (after_unpaired subs na st) i = None"
  proof (cases "err (after_unpaired subs na st) i")
    case None
    then show ?thesis .
  next
    case (Some c)
    then have "err (final_state subs na st) i = Some c"
      by (intro keep_success_pars keep_success_apps)
    then have "c = S0" using assms(2) by simp
    then show ?thesis
      using codes_after_unpaired[OF assms(1), of na st] Some S0_not_rejection by auto
  qed
  have c: "err (after_conflicts subs na st) i = None"
    using keep_unpaired[of subs na st i] u by (cases "err (after_conflicts subs na st) i") auto
  have m: "err (after_missing subs na st) i = None"
    using keep_conflicts[of subs na st i] c by (cases "err (after_missing subs na st) i") auto
  have "err (after_dedup subs na st) i = None"
    using keep_missing[of subs na st i] m by (cases "err (after_dedup subs na st) i") auto
  then show ?thesis using assms(1) by (simp add: candidates_set)
qed

lemma process_term_outputs:
  assumes "process_term term apps pars ids = (papps, ppars, rows, ids')"
  shows "papps @ ppars =
           map (\<lambda>i. ((apps @ pars) ! i)\<lparr>error :=
                  err (final_state (apps @ pars) (length apps) (initial_state (apps @ pars) ids)) i\<rparr>)
               [0..<length (apps @ pars)]"
    and "length papps = length apps" and "length ppars = length pars"
proof -
  have "[0..<length apps + length pars] = [0..<length apps] @ [length apps..<length apps + length pars]"
    by (metis le_add1 upt_add_eq_append zero_le)
  then show "papps @ ppars =
           map (\<lambda>i. ((apps @ pars) ! i)\<lparr>error :=
                  err (final_state (apps @ pars) (length apps) (initial_state (apps @ pars) ids)) i\<rparr>)
               [0..<length (apps @ pars)]"
    using assms by (auto simp: process_term_def Let_def)
  show "length papps = length apps" "length ppars = length pars"
    using assms by (auto simp: process_term_def Let_def)
qed

text \<open>
  Claim C10. Within a term, the applicant ids of the rows and the non-empty partner ids
  of the rows are pairwise different, so that no person id occurs twice in the accepted
  rows, in either column; and two submissions of the term with the same person id do
  not both get S0.
\<close>

theorem one_acceptance_per_person:
  assumes "process_term term apps pars ids = (papps, ppars, rows, ids')"
  shows "distinct (map fst rows @
                   filter (\<lambda>p. p \<noteq> []) (map (\<lambda>r. fst (snd (snd r))) rows))
         \<and> (\<forall>i j. i < length (papps @ ppars) \<and> j < length (papps @ ppars)
                \<and> error ((papps @ ppars) ! i) = Some S0
                \<and> error ((papps @ ppars) ! j) = Some S0
                \<and> person_id ((papps @ ppars) ! i) = person_id ((papps @ ppars) ! j)
              \<longrightarrow> i = j)"
proof (intro conjI allI impI)
  show "distinct (map fst rows @
                   filter (\<lambda>p. p \<noteq> []) (map (\<lambda>r. fst (snd (snd r))) rows))"
    unfolding process_term_rows[OF assms] by (rule rows_distinct_ids)
next
  let ?subs = "apps @ pars"
  let ?st = "initial_state ?subs ids"
  let ?fin = "final_state ?subs (length apps) ?st"
  fix i j
  assume h: "i < length (papps @ ppars) \<and> j < length (papps @ ppars)
                \<and> error ((papps @ ppars) ! i) = Some S0
                \<and> error ((papps @ ppars) ! j) = Some S0
                \<and> person_id ((papps @ ppars) ! i) = person_id ((papps @ ppars) ! j)"
  note o = process_term_outputs[OF assms]
  have len: "length (papps @ ppars) = length ?subs" using o(2,3) by simp
  from h len have i: "i < length ?subs" and j: "j < length ?subs" by simp_all
  have ei: "error ((papps @ ppars) ! i) = err ?fin i"
    and pi: "person_id ((papps @ ppars) ! i) = person_id (?subs ! i)"
    unfolding o(1) using i by simp_all
  have ej: "error ((papps @ ppars) ! j) = err ?fin j"
    and pj: "person_id ((papps @ ppars) ! j) = person_id (?subs ! j)"
    unfolding o(1) using j by simp_all
  from h have si: "err ?fin i = Some S0" and sj: "err ?fin j = Some S0"
    unfolding ei ej by blast+
  from h have "person_id ((papps @ ppars) ! i) = person_id ((papps @ ppars) ! j)" by blast
  then have pe: "person_id (?subs ! i) = person_id (?subs ! j)" unfolding pi pj .
  have ci: "i \<in> set (candidates ?subs (length apps) ?st)"
    using i si by (rule success_is_candidate)
  have cj: "j \<in> set (candidates ?subs (length apps) ?st)"
    using j sj by (rule success_is_candidate)
  from ci cj pe show "i = j" by (rule candidates_inj)
qed

section \<open>Every submission gets exactly one outcome\<close>

text \<open>
  Claim C6. \<open>process_term\<close> returns the submissions it was given, each with an outcome
  among S0, E1, E2, E3; and a code that any pass has assigned to a submission, S0 in
  particular, is the code the submission has at the end.
\<close>

theorem every_submission_one_outcome:
  assumes "process_term term apps pars ids = (papps, ppars, rows, ids')"
  shows "length papps = length apps \<and> length ppars = length pars
       \<and> (\<forall>s \<in> set (papps @ ppars).
             error s = Some S0 \<or> error s = Some E1 \<or> error s = Some E2 \<or> error s = Some E3)
       \<and> (\<forall>i < length (apps @ pars).
             (papps @ ppars) ! i = ((apps @ pars) ! i)\<lparr>error := error ((papps @ ppars) ! i)\<rparr>
             \<and> (\<forall>q \<in> set (pass_states (apps @ pars) (length apps)
                                (initial_state (apps @ pars) ids)).
                   \<forall>c. err q i = Some c \<longrightarrow> error ((papps @ ppars) ! i) = Some c))"
proof -
  let ?subs = "apps @ pars"
  let ?st = "initial_state ?subs ids"
  let ?fin = "final_state ?subs (length apps) ?st"
  note o = process_term_outputs[OF assms]
  have nth: "(papps @ ppars) ! i = (?subs ! i)\<lparr>error := err ?fin i\<rparr>" if "i < length ?subs" for i
    unfolding o(1) using that by simp
  have e: "error ((papps @ ppars) ! i) = err ?fin i" if "i < length ?subs" for i
    unfolding nth[OF that] by simp
  have codes: "error s = Some S0 \<or> error s = Some E1 \<or> error s = Some E2 \<or> error s = Some E3"
    if "s \<in> set (papps @ ppars)" for s
  proof -
    from that obtain i where i: "i < length ?subs" and s: "s = (?subs ! i)\<lparr>error := err ?fin i\<rparr>"
      unfolding o(1) by auto
    show ?thesis using codes_final_state[OF i, of "length apps" ?st] unfolding s by auto
  qed
  show ?thesis
  proof (intro conjI ballI allI impI)
    show "length papps = length apps" "length ppars = length pars" by (rule o)+
  next
    fix s assume "s \<in> set (papps @ ppars)"
    then show "error s = Some S0 \<or> error s = Some E1 \<or> error s = Some E2 \<or> error s = Some E3"
      by (rule codes)
  next
    fix i assume i: "i < length ?subs"
    show "(papps @ ppars) ! i = (?subs ! i)\<lparr>error := error ((papps @ ppars) ! i)\<rparr>"
      unfolding nth[OF i] by simp
    fix q c assume "q \<in> set (pass_states ?subs (length apps) ?st)" "err q i = Some c"
    then have "err ?fin i = Some c" by (rule pass_states_keep)
    then show "error ((papps @ ppars) ! i) = Some c" unfolding e[OF i] .
  qed
qed

section \<open>The ineligibility set\<close>

lemma add_ineligible_eq: "add_ineligible rows ids = ids \<union> row_person_ids rows"
proof (induction rows arbitrary: ids)
  case Nil
  show ?case
    by (simp add: add_ineligible_def row_person_ids_def valid_app_ids_def valid_par_ids_def)
next
  case (Cons r rows)
  obtain a an p pn f where r: "r = (a, an, p, pn, f)" by (cases r) auto
  have step: "add_ineligible (r # rows) ids =
          add_ineligible rows (if p \<noteq> [] then insert p (insert a ids) else insert a ids)"
    by (simp add: add_ineligible_def r)
  show ?case unfolding step Cons.IH
    by (auto simp: row_person_ids_def valid_app_ids_def valid_par_ids_def r)
qed

lemma process_term_frame:
  "process_term term apps pars ids = (papps, ppars, rows, ids') \<Longrightarrow> ids' = ids"
  by (auto simp: process_term_def Let_def initial_state_def)

lemma pass_states_frame:
  assumes "q \<in> set (pass_states subs na st)"
  shows "ineligible_ids q = ineligible_ids st"
proof -
  have "ineligible_ids (validate_all subs st) = ineligible_ids st"
    by (simp add: validate_all_eq)
  moreover have "ineligible_ids (fst (pairs_result subs na st)) = ineligible_ids st"
    by (simp add: pairs_result_eq)
  moreover have "ineligible_ids (set_success subs [0..<na]
        (valid_app_ids (valid_rows_of subs na st)) (after_unpaired subs na st)) = ineligible_ids st"
    by (simp add: set_success_eq)
  ultimately show ?thesis using assms unfolding pass_states_def by auto
qed

lemma run_terms_step:
  "run_terms (t # ts) apps pars ids =
     (case process_term t (of_term t apps) (of_term t pars) ids of
        (pa, pp, rows, ids1) \<Rightarrow>
          ((pa, pp, rows) # fst (run_terms ts apps pars (ids \<union> row_person_ids rows)),
           snd (run_terms ts apps pars (ids \<union> row_person_ids rows))))"
proof -
  obtain pa pp rows ids1 where p: "process_term t (of_term t apps) (of_term t pars) ids
      = (pa, pp, rows, ids1)" by (metis prod_cases4)
  have "ids1 = ids" using p by (rule process_term_frame)
  then show ?thesis using p
    by (simp add: of_term_def add_ineligible_eq split: prod.splits)
qed

lemma run_terms_append:
  "run_terms (ts1 @ ts2) apps pars ids =
     (fst (run_terms ts1 apps pars ids)
        @ fst (run_terms ts2 apps pars (snd (run_terms ts1 apps pars ids))),
      snd (run_terms ts2 apps pars (snd (run_terms ts1 apps pars ids))))"
proof (induction ts1 arbitrary: ids)
  case Nil
  show ?case by simp
next
  case (Cons t ts1)
  show ?case
    unfolding append_Cons run_terms_step Cons.IH by (simp split: prod.splits)
qed

lemma run_terms_mono: "ids \<subseteq> snd (run_terms ts apps pars ids)"
proof (induction ts arbitrary: ids)
  case Nil
  show ?case by simp
next
  case (Cons t ts)
  obtain pa pp rows ids1 where p: "process_term t (of_term t apps) (of_term t pars) ids
      = (pa, pp, rows, ids1)" by (metis prod_cases4)
  have "ids \<union> row_person_ids rows \<subseteq> snd (run_terms ts apps pars (ids \<union> row_person_ids rows))"
    by (rule Cons.IH)
  then show ?case unfolding run_terms_step p by simp
qed

lemma run_terms_length: "length (fst (run_terms ts apps pars ids)) = length ts"
proof (induction ts arbitrary: ids)
  case Nil
  show ?case by simp
next
  case (Cons t ts)
  show ?case unfolding run_terms_step by (simp add: Cons.IH split: prod.splits)
qed

lemma ineligible_before_mono:
  assumes "j \<le> k"
  shows "ineligible_before ts apps pars ids j \<subseteq> ineligible_before ts apps pars ids k"
proof -
  have "take k ts = take j ts @ take (k - j) (drop j ts)"
    using assms by (metis le_add_diff_inverse take_add)
  then show ?thesis
    unfolding ineligible_before_def by (simp add: run_terms_append run_terms_mono)
qed

lemma run_terms_nth:
  assumes "k < length ts"
  shows "fst (run_terms ts apps pars ids) ! k =
           (case process_term (ts ! k) (of_term (ts ! k) apps) (of_term (ts ! k) pars)
                   (ineligible_before ts apps pars ids k) of
              (pa, pp, rows, ids1) \<Rightarrow> (pa, pp, rows))"
    and "ineligible_before ts apps pars ids (Suc k) =
           ineligible_before ts apps pars ids k \<union>
           row_person_ids (snd (snd (fst (run_terms ts apps pars ids) ! k)))"
proof -
  let ?b = "ineligible_before ts apps pars ids k"
  have ts: "ts = take k ts @ (ts ! k) # drop (Suc k) ts"
    using assms by (rule id_take_nth_drop)
  have len: "length (fst (run_terms (take k ts) apps pars ids)) = k"
    using assms by (simp add: run_terms_length)
  obtain pa pp rows ids1 where p: "process_term (ts ! k) (of_term (ts ! k) apps)
      (of_term (ts ! k) pars) ?b = (pa, pp, rows, ids1)" by (metis prod_cases4)
  have step: "fst (run_terms ((ts ! k) # drop (Suc k) ts) apps pars ?b) ! 0 = (pa, pp, rows)"
    unfolding run_terms_step p by simp
  have "fst (run_terms ts apps pars ids) =
          fst (run_terms (take k ts) apps pars ids)
            @ fst (run_terms ((ts ! k) # drop (Suc k) ts) apps pars ?b)"
    unfolding ineligible_before_def by (subst ts) (simp add: run_terms_append)
  then have nth: "fst (run_terms ts apps pars ids) ! k = (pa, pp, rows)"
    using len step by (simp add: nth_append del: run_terms.simps)
  then show "fst (run_terms ts apps pars ids) ! k =
           (case process_term (ts ! k) (of_term (ts ! k) apps) (of_term (ts ! k) pars) ?b of
              (pa, pp, rows, ids1) \<Rightarrow> (pa, pp, rows))"
    by (simp add: p)
  have "take (Suc k) ts = take k ts @ [ts ! k]" using assms by (rule take_Suc_conv_app_nth)
  moreover have "snd (run_terms [ts ! k] apps pars ?b) = ?b \<union> row_person_ids rows"
    unfolding run_terms_step p by simp
  ultimately have "ineligible_before ts apps pars ids (Suc k) = ?b \<union> row_person_ids rows"
    unfolding ineligible_before_def by (simp add: run_terms_append del: run_terms.simps)
  then show "ineligible_before ts apps pars ids (Suc k) =
           ?b \<union> row_person_ids (snd (snd (fst (run_terms ts apps pars ids) ! k)))"
    unfolding nth by simp
qed

text \<open>
  Claim C8. In a run over the terms \<open>ts\<close>, take the \<open>k\<close>-th term. \<open>process_term\<close> is
  called with the set as it stands before the term; every pass of the call sees this
  set, and the call leaves it unchanged. After the call the set is the set before the
  term together with the applicant ids and the non-empty partner ids of the rows of the
  term, and nothing else changes it; so the sets before the terms form a chain that
  starts with the initial set and ends with the final one.
\<close>

theorem ineligible_set_discipline:
  assumes "k < length ts"
  shows "\<exists>pa pp rows.
           process_term (ts ! k) (of_term (ts ! k) apps) (of_term (ts ! k) pars)
               (ineligible_before ts apps pars ids k)
             = (pa, pp, rows, ineligible_before ts apps pars ids k)
         \<and> fst (run_terms ts apps pars ids) ! k = (pa, pp, rows)
         \<and> (\<forall>q \<in> set (pass_states (of_term (ts ! k) apps @ of_term (ts ! k) pars)
                          (length (of_term (ts ! k) apps))
                          (initial_state (of_term (ts ! k) apps @ of_term (ts ! k) pars)
                             (ineligible_before ts apps pars ids k))).
               ineligible_ids q = ineligible_before ts apps pars ids k)
         \<and> ineligible_before ts apps pars ids (Suc k)
             = ineligible_before ts apps pars ids k \<union> row_person_ids rows
         \<and> (\<forall>j \<le> k. ineligible_before ts apps pars ids j
                        \<subseteq> ineligible_before ts apps pars ids k)
         \<and> ineligible_before ts apps pars ids 0 = ids
         \<and> ineligible_before ts apps pars ids (length ts) = snd (run_terms ts apps pars ids)"
proof -
  let ?b = "ineligible_before ts apps pars ids k"
  obtain pa pp rows ids1 where p: "process_term (ts ! k) (of_term (ts ! k) apps)
      (of_term (ts ! k) pars) ?b = (pa, pp, rows, ids1)" by (metis prod_cases4)
  have f: "ids1 = ?b" using p by (rule process_term_frame)
  have n: "fst (run_terms ts apps pars ids) ! k = (pa, pp, rows)"
    unfolding run_terms_nth(1)[OF assms] p by simp
  have s: "ineligible_before ts apps pars ids (Suc k) = ?b \<union> row_person_ids rows"
    unfolding run_terms_nth(2)[OF assms] n by simp
  have fr: "\<forall>q \<in> set (pass_states (of_term (ts ! k) apps @ of_term (ts ! k) pars)
                          (length (of_term (ts ! k) apps))
                          (initial_state (of_term (ts ! k) apps @ of_term (ts ! k) pars) ?b)).
               ineligible_ids q = ?b"
    using pass_states_frame by (simp add: initial_state_def)
  have m: "\<forall>j \<le> k. ineligible_before ts apps pars ids j \<subseteq> ?b"
    using ineligible_before_mono by blast
  have z: "ineligible_before ts apps pars ids 0 = ids"
    and e: "ineligible_before ts apps pars ids (length ts) = snd (run_terms ts apps pars ids)"
    by (simp_all add: ineligible_before_def)
  show ?thesis
    using p[unfolded f] n fr s m z e by blast
qed

section \<open>Ineligibility carries over to later terms\<close>

lemma validation_error_update [simp]:
  "apply_input_validation (s\<lparr>error := e\<rparr>) = apply_input_validation s"
  by (simp add: apply_input_validation_def)

lemma ineligible_outcome:
  assumes "i < length subs" and "person_id (subs ! i) \<in> ineligible_ids st"
  shows "err (final_state subs na st) i =
           (if err (after_validation subs na st) i = None then Some E2 else Some E1)"
proof (cases "err (after_validation subs na st) i = None")
  case True
  then have "err (after_ineligible subs na st) i = Some E2"
    using assms by (simp add: err_after_ineligible)
  moreover have "after_ineligible subs na st \<in> set (pass_states subs na st)"
    by (simp add: pass_states_def)
  ultimately have "err (final_state subs na st) i = Some E2" by (rule pass_states_keep[rotated])
  then show ?thesis using True by simp
next
  case False
  then have "err (after_validation subs na st) i = Some E1"
    using after_validation_codes[OF assms(1), of na st] by metis
  moreover have "after_validation subs na st \<in> set (pass_states subs na st)"
    by (simp add: pass_states_def)
  ultimately have "err (final_state subs na st) i = Some E1" by (rule pass_states_keep[rotated])
  then show ?thesis by (simp only: False if_False)
qed

lemma process_term_ineligible:
  assumes p: "process_term term apps pars ids = (papps, ppars, rows, ids')"
      and pid: "pid \<in> ids"
  shows "\<forall>s \<in> set papps. person_id s = pid \<longrightarrow>
           error s = (if apply_input_validation s = None
                         \<and> \<not> (has_partner s = Some WITH_PARTNER
                               \<and> partner_id s \<notin> Some ` {p \<in> person_id ` set ppars. p \<noteq> []})
                      then Some E2 else Some E1)"
    and "\<forall>s \<in> set ppars. person_id s = pid \<longrightarrow>
           error s = (if apply_input_validation s = None then Some E2 else Some E1)"
proof -
  let ?subs = "apps @ pars"
  let ?na = "length apps"
  let ?st = "initial_state ?subs ids"
  let ?fin = "final_state ?subs ?na ?st"
  have pa: "papps = map (\<lambda>i. (?subs ! i)\<lparr>error := err ?fin i\<rparr>) [0..<?na]"
    and pp: "ppars = map (\<lambda>i. (?subs ! i)\<lparr>error := err ?fin i\<rparr>) [?na..<length ?subs]"
    using p by (auto simp: process_term_def Let_def)
  have ids: "ineligible_ids ?st = ids" by (simp add: initial_state_def)
  have pset: "person_id ` set ppars = person_id ` set pars"
  proof -
    have "map person_id ppars = map (\<lambda>i. person_id (?subs ! i)) [?na..<length ?subs]"
      unfolding pp by simp
    also have "\<dots> = map person_id (map ((!) ?subs) [?na..<length ?subs])" by simp
    also have "map ((!) ?subs) [?na..<length ?subs] = drop ?na ?subs"
      by (metis drop_map length_map map_nth drop_upt add_0)
    finally have "map person_id ppars = map person_id pars" by simp
    then show ?thesis by (metis set_map)
  qed
  have dr: "set (filter (\<lambda>p. p \<noteq> []) (map person_id (drop ?na ?subs)))
              = {p \<in> person_id ` set ppars. p \<noteq> []}"
    unfolding pset by auto
  show "\<forall>s \<in> set papps. person_id s = pid \<longrightarrow>
           error s = (if apply_input_validation s = None
                         \<and> \<not> (has_partner s = Some WITH_PARTNER
                               \<and> partner_id s \<notin> Some ` {p \<in> person_id ` set ppars. p \<noteq> []})
                      then Some E2 else Some E1)"
  proof (intro ballI impI)
    fix s assume "s \<in> set papps" and sp: "person_id s = pid"
    then obtain i where i: "i < ?na" and s: "s = (?subs ! i)\<lparr>error := err ?fin i\<rparr>"
      unfolding pa by auto
    have il: "i < length ?subs" using i by simp
    have pi: "person_id (?subs ! i) \<in> ineligible_ids ?st" using sp pid unfolding s ids by simp
    have v: "err (after_validation ?subs ?na ?st) i = None \<longleftrightarrow>
               apply_input_validation s = None
                 \<and> \<not> (has_partner s = Some WITH_PARTNER
                       \<and> partner_id s \<notin> Some ` {p \<in> person_id ` set ppars. p \<noteq> []})"
      using il i apply_input_validation_codes[of "?subs ! i"]
      unfolding err_after_validation dr s by (auto simp: E1_def ascii_def)
    have "error s = err ?fin i" unfolding s by simp
    then show "error s = (if apply_input_validation s = None
                         \<and> \<not> (has_partner s = Some WITH_PARTNER
                               \<and> partner_id s \<notin> Some ` {p \<in> person_id ` set ppars. p \<noteq> []})
                      then Some E2 else Some E1)"
      unfolding ineligible_outcome[OF il pi] v by simp
  qed
  show "\<forall>s \<in> set ppars. person_id s = pid \<longrightarrow>
           error s = (if apply_input_validation s = None then Some E2 else Some E1)"
  proof (intro ballI impI)
    fix s assume "s \<in> set ppars" and sp: "person_id s = pid"
    then obtain i where i: "?na \<le> i" "i < length ?subs"
      and s: "s = (?subs ! i)\<lparr>error := err ?fin i\<rparr>"
      unfolding pp by auto
    have pi: "person_id (?subs ! i) \<in> ineligible_ids ?st" using sp pid unfolding s ids by simp
    have v: "err (after_validation ?subs ?na ?st) i = None \<longleftrightarrow>
               apply_input_validation s = None"
      using i apply_input_validation_codes[of "?subs ! i"]
      unfolding err_after_validation s by (auto simp: E1_def ascii_def)
    have "error s = err ?fin i" unfolding s by simp
    then show "error s = (if apply_input_validation s = None then Some E2 else Some E1)"
      unfolding ineligible_outcome[OF i(2) pi] v by simp
  qed
qed

text \<open>
  Claim C2, as the code has it. In a run over the terms \<open>ts\<close>, let a person id occur in
  a row of the \<open>k\<close>-th term, as applicant or as partner, and take a later term \<open>k'\<close>.
  Every submission of that person in term \<open>k'\<close> gets E2 when it passes the validation
  (the checks of \<open>apply_input_validation\<close> and, for an applicant with a partner, the
  existence of a partner form in that term), and E1 when it does not; it never gets E3
  or S0.
\<close>

theorem ineligibility_carryover:
  assumes "k < k'" and "k' < length ts"
      and "pid \<in> row_person_ids (snd (snd (fst (run_terms ts apps pars ids) ! k)))"
  shows "\<exists>pa pp rows. fst (run_terms ts apps pars ids) ! k' = (pa, pp, rows)
         \<and> (\<forall>s \<in> set pa. person_id s = pid \<longrightarrow>
                error s = (if apply_input_validation s = None
                              \<and> \<not> (has_partner s = Some WITH_PARTNER
                                    \<and> partner_id s \<notin> Some ` {p \<in> person_id ` set pp. p \<noteq> []})
                           then Some E2 else Some E1))
         \<and> (\<forall>s \<in> set pp. person_id s = pid \<longrightarrow>
                error s = (if apply_input_validation s = None then Some E2 else Some E1))"
proof -
  let ?b = "ineligible_before ts apps pars ids k'"
  have k: "k < length ts" using assms(1,2) by simp
  have "pid \<in> ineligible_before ts apps pars ids (Suc k)"
    unfolding run_terms_nth(2)[OF k] using assms(3) by simp
  moreover have "ineligible_before ts apps pars ids (Suc k) \<subseteq> ?b"
    using assms(1) by (intro ineligible_before_mono) simp
  ultimately have pid: "pid \<in> ?b" by blast
  obtain pa pp rows ids1 where p: "process_term (ts ! k') (of_term (ts ! k') apps)
      (of_term (ts ! k') pars) ?b = (pa, pp, rows, ids1)" by (metis prod_cases4)
  have n: "fst (run_terms ts apps pars ids) ! k' = (pa, pp, rows)"
    unfolding run_terms_nth(1)[OF assms(2)] p by simp
  show ?thesis
    using n process_term_ineligible[OF p pid] by blast
qed

section \<open>Evaluation on the example inputs\<close>

lemma demo_ids_valid:
  "is_valid_student_id (ascii ''4612345'')"
  "is_valid_student_id (ascii ''4622222'')"
  "is_valid_student_id (ascii ''4611111'')"
  by (simp_all add: ascii_def is_valid_student_id_def re_match_student_id is_decimal_ascii)

lemma sentinels_differ: "WITH_PARTNER \<noteq> WITHOUT_PARTNER" "WITHOUT_PARTNER \<noteq> WITH_PARTNER"
  by (simp_all add: WITH_PARTNER_def WITHOUT_PARTNER_def)

lemma demo_names_nonempty:
  "ascii ''4612345'' \<noteq> []" "ascii ''4622222'' \<noteq> []" "ascii ''4611111'' \<noteq> []"
  "ascii ''Sato'' \<noteq> []" "ascii ''Kato'' \<noteq> []" "ascii ''Abe'' \<noteq> []"
  "CONSENT_AGREE \<noteq> []" "[] \<noteq> CONSENT_AGREE"
  by (simp_all add: ascii_def CONSENT_AGREE_def)

lemma demo_ids_differ:
  "ascii ''4612345'' \<noteq> ascii ''4622222''" "ascii ''4612345'' \<noteq> ascii ''4611111''"
  "ascii ''4622222'' \<noteq> ascii ''4611111''" "ascii ''4622222'' \<noteq> ascii ''4612345''"
  "ascii ''4611111'' \<noteq> ascii ''4612345''" "ascii ''4611111'' \<noteq> ascii ''4622222''"
  by (simp_all add: ascii_def)

lemma demo_validation:
  "apply_input_validation demo_solo = None"
  "apply_input_validation demo_late_valid = None"
  "apply_input_validation demo_late_invalid = Some E1"
  "apply_input_validation demo_first = None"
  "apply_input_validation demo_second = None"
  "apply_input_validation demo_partner = None"
  by (simp_all add: apply_input_validation_def demo_solo_def demo_late_valid_def
        demo_late_invalid_def demo_first_def demo_second_def demo_partner_def
        demo_ids_valid demo_names_nonempty sentinels_differ truthy_def role_app_neq_par
        role_app_neq_par[symmetric])

section \<open>A term with a single applicant\<close>

lemma singleton_list: "distinct xs \<Longrightarrow> set xs = {a} \<Longrightarrow> xs = [a]"
proof -
  assume d: "distinct xs" and s: "set xs = {a}"
  have "length xs = card (set xs)" using d by (simp add: distinct_card)
  then have "length xs = 1" using s by simp
  then obtain x where "xs = [x]" by (cases xs) auto
  then show ?thesis using s by simp
qed

lemma process_term_single:
  "process_term t [s] [] ids =
     ([s\<lparr>error := err (final_state [s] (Suc 0) (initial_state [s] ids)) 0\<rparr>], [],
      valid_rows_of [s] (Suc 0) (initial_state [s] ids), ids)"
  by (simp add: process_term_def Let_def initial_state_def)

lemma single_rejected:
  assumes "err (after_ineligible [s] (Suc 0) st) 0 = Some c"
  shows "err (final_state [s] (Suc 0) st) 0 = Some c" and "valid_rows_of [s] (Suc 0) st = []"
proof -
  have "after_ineligible [s] (Suc 0) st \<in> set (pass_states [s] (Suc 0) st)" by (simp add: pass_states_def)
  then show "err (final_state [s] (Suc 0) st) 0 = Some c" using assms by (rule pass_states_keep)
  have "err (after_dedup [s] (Suc 0) st) 0 = Some c" using assms by (rule keep_dedup)
  then have "set (candidates [s] (Suc 0) st) = {}" unfolding candidates_set by auto
  then have "survivors [s] (Suc 0) st = []" by (simp add: survivors_def app_candidates_def)
  then show "valid_rows_of [s] (Suc 0) st = []" by (simp add: valid_rows_of_eq)
qed

lemma single_invalid:
  assumes "apply_input_validation s \<noteq> None"
  shows "process_term t [s] [] ids = ([s\<lparr>error := Some E1\<rparr>], [], [], ids)"
proof -
  let ?st = "initial_state [s] ids"
  have "apply_input_validation s = Some E1"
    using assms apply_input_validation_codes[of s] by metis
  then have "err (after_validation [s] (Suc 0) ?st) 0 = Some E1"
    by (simp add: err_after_validation)
  then have "err (after_ineligible [s] (Suc 0) ?st) 0 = Some E1" by (rule keep_ineligible)
  from single_rejected[OF this] show ?thesis unfolding process_term_single by simp
qed

lemma single_ineligible:
  assumes "apply_input_validation s = None" and "has_partner s \<noteq> Some WITH_PARTNER"
      and "person_id s \<in> ids"
  shows "process_term t [s] [] ids = ([s\<lparr>error := Some E2\<rparr>], [], [], ids)"
proof -
  let ?st = "initial_state [s] ids"
  have "err (after_validation [s] (Suc 0) ?st) 0 = None"
    using assms(1,2) by (simp add: err_after_validation)
  then have "err (after_ineligible [s] (Suc 0) ?st) 0 = Some E2"
    using assms(3) by (simp add: err_after_ineligible initial_state_def)
  from single_rejected[OF this] show ?thesis unfolding process_term_single by simp
qed

lemma single_accepted:
  assumes v: "apply_input_validation s = None" and nw: "has_partner s \<noteq> Some WITH_PARTNER"
      and ni: "person_id s \<notin> ids" and r: "role s = ROLE_APP"
  shows "process_term t [s] [] ids =
           ([s\<lparr>error := Some S0\<rparr>], [],
            [(person_id s, person_name s, [], [], floor_or_0 (floor s))], ids)"
proof -
  let ?st = "initial_state [s] ids"
  have e1: "err (after_validation [s] (Suc 0) ?st) 0 = None"
    using v nw by (simp add: err_after_validation)
  then have e2: "err (after_ineligible [s] (Suc 0) ?st) 0 = None"
    using ni by (simp add: err_after_ineligible initial_state_def)
  have cs: "set (clean_candidates [s] (Suc 0) ?st) = {0}"
    unfolding clean_candidates_set using e2 by auto
  have "0 \<in> set (clean_candidates [s] (Suc 0) ?st)" unfolding cs by simp
  then have "latest_of [s] (person_group [s] (clean_candidates [s] (Suc 0) ?st) 0)
          \<in> set (person_group [s] (clean_candidates [s] (Suc 0) ?st) 0)"
    by (rule latest_of_group)
  then have "latest_of [s] (person_group [s] (clean_candidates [s] (Suc 0) ?st) 0)
          \<in> set (clean_candidates [s] (Suc 0) ?st)" by (simp add: person_group_def)
  then have l: "latest_of [s] (person_group [s] (clean_candidates [s] (Suc 0) ?st) 0) = 0"
    unfolding cs by simp
  have e3: "err (after_dedup [s] (Suc 0) ?st) 0 = None"
    using e2 l by (simp add: err_after_dedup)
  have "set (candidates [s] (Suc 0) ?st) = {0}" unfolding candidates_set using e3 by auto
  then have c: "candidates [s] (Suc 0) ?st = [0]" using candidates_distinct by (rule singleton_list[rotated])
  have a: "app_candidates [s] (Suc 0) ?st = [0]" and p: "par_candidates [s] (Suc 0) ?st = []"
    using r role_app_neq_par by (simp_all add: app_candidates_def par_candidates_def c)
  have e4: "err (after_missing [s] (Suc 0) ?st) 0 = None"
    using e3 nw by (simp add: err_after_missing)
  have e5: "err (after_conflicts [s] (Suc 0) ?st) 0 = None"
    using e4 nw by (simp add: err_after_conflicts conflict_claimants_set)
  have sv: "survivors [s] (Suc 0) ?st = [0]" using e5 by (simp add: survivors_def a)
  have rows: "valid_rows_of [s] (Suc 0) ?st = [(person_id s, person_name s, [], [], floor_or_0 (floor s))]"
    using nw by (simp add: valid_rows_of_eq sv alloc_row_of_def)
  have e7: "err (after_unpaired [s] (Suc 0) ?st) 0 = None"
    using e5 by (simp add: err_after_unpaired p)
  have "err (final_state [s] (Suc 0) ?st) 0 = Some S0"
    using e7 by (simp add: err_final_state rows valid_app_ids_def)
  then show ?thesis unfolding process_term_single rows by simp
qed

section \<open>A run in which an accepted person submits again\<close>

lemma demo_solo_fields:
  "person_id demo_solo = ascii ''4612345''" "person_name demo_solo = ascii ''Sato''"
  "has_partner demo_solo = Some WITHOUT_PARTNER" "role demo_solo = ROLE_APP"
  "floor demo_solo = Some 4" "term_idx demo_solo = 0"
  "person_id demo_late_invalid = ascii ''4612345''" "term_idx demo_late_invalid = 1"
  "person_id demo_late_valid = ascii ''4612345''" "term_idx demo_late_valid = 1"
  "has_partner demo_late_valid = Some WITHOUT_PARTNER"
  by (simp_all add: demo_solo_def demo_late_invalid_def demo_late_valid_def)

lemma demo_term0:
  "process_term 0 [demo_solo] [] {} =
     ([demo_solo\<lparr>error := Some S0\<rparr>], [],
      [(ascii ''4612345'', ascii ''Sato'', [], [], 4)], {})"
  using single_accepted[of demo_solo "{}" 0]
  by (simp add: demo_validation demo_solo_fields sentinels_differ floor_or_0_def)

lemma demo_row_ids:
  "row_person_ids [(ascii ''4612345'', ascii ''Sato'', [], [], 4)] = {ascii ''4612345''}"
  by (simp add: row_person_ids_def valid_app_ids_def valid_par_ids_def)

lemma demo_run_invalid:
  "run_terms [0, 1] [demo_solo, demo_late_invalid] [] {} =
     ([([demo_solo\<lparr>error := Some S0\<rparr>], [], [(ascii ''4612345'', ascii ''Sato'', [], [], 4)]),
       ([demo_late_invalid\<lparr>error := Some E1\<rparr>], [], [])],
      {ascii ''4612345''})"
proof -
  have t1: "process_term 1 [demo_late_invalid] [] {ascii ''4612345''} =
          ([demo_late_invalid\<lparr>error := Some E1\<rparr>], [], [], {ascii ''4612345''})"
    by (rule single_invalid) (simp add: demo_validation)
  show ?thesis
    unfolding run_terms_step
    by (simp add: of_term_def demo_solo_fields demo_term0 t1 demo_row_ids
          row_person_ids_def valid_app_ids_def valid_par_ids_def)
qed

lemma demo_run_valid:
  "run_terms [0, 1] [demo_solo, demo_late_valid] [] {} =
     ([([demo_solo\<lparr>error := Some S0\<rparr>], [], [(ascii ''4612345'', ascii ''Sato'', [], [], 4)]),
       ([demo_late_valid\<lparr>error := Some E2\<rparr>], [], [])],
      {ascii ''4612345''})"
proof -
  have t1: "process_term 1 [demo_late_valid] [] {ascii ''4612345''} =
          ([demo_late_valid\<lparr>error := Some E2\<rparr>], [], [], {ascii ''4612345''})"
    by (rule single_ineligible)
       (simp_all add: demo_validation demo_solo_fields sentinels_differ)
  show ?thesis
    unfolding run_terms_step
    by (simp add: of_term_def demo_solo_fields demo_term0 t1 demo_row_ids
          row_person_ids_def valid_app_ids_def valid_par_ids_def)
qed

section \<open>A term with a duplicate and a term with a conflict\<close>

lemma dedup_unique:
  assumes i: "i < length subs" and c: "err (after_ineligible subs na st) i = None"
      and u: "\<forall>j < length subs. person_id (subs ! j) = person_id (subs ! i) \<longrightarrow> j = i"
  shows "err (after_dedup subs na st) i = None"
proof -
  let ?c = "clean_candidates subs na st"
  have ic: "i \<in> set ?c" using i c by (simp add: clean_candidates_set)
  then have "latest_of subs (person_group subs ?c i) \<in> set (person_group subs ?c i)"
    by (rule latest_of_group)
  then have "latest_of subs (person_group subs ?c i) = i"
    unfolding person_group_set using u by blast
  then show ?thesis using c by (simp add: err_after_dedup)
qed

lemma validation_row_index_update:
  "apply_input_validation (s\<lparr>row_index := r\<rparr>) = apply_input_validation s"
  by (simp add: apply_input_validation_def)

lemma demo_dup_fields:
  "person_id demo_again = ascii ''4612345''" "has_partner demo_again = Some WITHOUT_PARTNER"
  "timestamp demo_again = (2024, 4, 1, 9, 0, 0)" "row_index demo_again = 1"
  "timestamp demo_solo = (2024, 4, 1, 9, 0, 0)" "row_index demo_solo = 0"
  by (simp_all add: demo_again_def demo_solo_def)

lemma demo_dup_validation: "apply_input_validation demo_again = None"
  unfolding demo_again_def validation_row_index_update by (rule demo_validation(1))

lemma demo_dup_clean:
  "err (after_ineligible [demo_solo, demo_again] 2 (initial_state [demo_solo, demo_again] {})) 0
     = None"
  "err (after_ineligible [demo_solo, demo_again] 2 (initial_state [demo_solo, demo_again] {})) 1
     = None"
  by (simp_all add: err_after_ineligible err_after_validation demo_validation demo_dup_fields
        demo_dup_validation demo_solo_fields sentinels_differ initial_state_def)

lemma demo_pair_fields:
  "person_id demo_first = ascii ''4612345''" "person_name demo_first = ascii ''Sato''"
  "partner_id demo_first = Some (ascii ''4611111'')" "has_partner demo_first = Some WITH_PARTNER"
  "role demo_first = ROLE_APP" "floor demo_first = Some 2"
  "timestamp demo_first = (2024, 4, 1, 9, 0, 0)"
  "person_id demo_second = ascii ''4622222''"
  "partner_id demo_second = Some (ascii ''4611111'')"
  "has_partner demo_second = Some WITH_PARTNER"
  "role demo_second = ROLE_APP" "timestamp demo_second = (2024, 4, 1, 10, 0, 0)"
  "person_id demo_partner = ascii ''4611111''" "person_name demo_partner = ascii ''Abe''"
  "role demo_partner = ROLE_PAR" "has_partner demo_partner = None"
  by (simp_all add: demo_first_def demo_second_def demo_partner_def)

lemma less_3: "j < (3::nat) \<longleftrightarrow> j = 0 \<or> j = 1 \<or> j = 2"
  by auto

lemma less_2: "j < (2::nat) \<longleftrightarrow> j = 0 \<or> j = 1"
  by auto

lemma demo_pair_nth:
  "[demo_first, demo_second, demo_partner] ! 0 = demo_first"
  "[demo_first, demo_second, demo_partner] ! 1 = demo_second"
  "[demo_first, demo_second, demo_partner] ! 2 = demo_partner"
  by simp_all

lemma demo_pair_clean:
  assumes "j < 3"
  shows "err (after_ineligible [demo_first, demo_second, demo_partner] 2
               (initial_state [demo_first, demo_second, demo_partner] {})) j = None"
  using assms unfolding less_3
  by (auto simp: err_after_ineligible err_after_validation demo_validation demo_pair_fields
        demo_names_nonempty initial_state_def)

lemma demo_pair_dedup:
  assumes "j < 3"
  shows "err (after_dedup [demo_first, demo_second, demo_partner] 2
               (initial_state [demo_first, demo_second, demo_partner] {})) j = None"
proof (rule dedup_unique)
  show "j < length [demo_first, demo_second, demo_partner]" using assms by simp
  show "err (after_ineligible [demo_first, demo_second, demo_partner] 2
               (initial_state [demo_first, demo_second, demo_partner] {})) j = None"
    using assms by (rule demo_pair_clean)
  show "\<forall>ja<length [demo_first, demo_second, demo_partner].
       person_id ([demo_first, demo_second, demo_partner] ! ja) =
       person_id ([demo_first, demo_second, demo_partner] ! j) \<longrightarrow> ja = j"
  proof (intro allI impI)
    fix ja
    assume "ja < length [demo_first, demo_second, demo_partner]"
      and e: "person_id ([demo_first, demo_second, demo_partner] ! ja) =
              person_id ([demo_first, demo_second, demo_partner] ! j)"
    then have "ja = 0 \<or> ja = 1 \<or> ja = 2" by auto
    moreover have "j = 0 \<or> j = 1 \<or> j = 2" using assms by (simp add: less_3)
    ultimately show "ja = j"
      using e by (elim disjE) (simp_all add: demo_pair_fields demo_ids_differ)
  qed
qed

lemma demo_pair_candidates:
  "set (app_candidates [demo_first, demo_second, demo_partner] 2
          (initial_state [demo_first, demo_second, demo_partner] {})) = {0, 1}"
  "set (par_candidates [demo_first, demo_second, demo_partner] 2
          (initial_state [demo_first, demo_second, demo_partner] {})) = {2}"
proof -
  let ?T = "[demo_first, demo_second, demo_partner]"
  have c: "set (candidates ?T 2 (initial_state ?T {})) = {0, 1, 2}"
    unfolding candidates_set using demo_pair_dedup by (auto simp: less_3)
  show "set (app_candidates ?T 2 (initial_state ?T {})) = {0, 1}"
    unfolding app_candidates_set c using role_app_neq_par
    by (auto simp: demo_pair_fields)
  show "set (par_candidates ?T 2 (initial_state ?T {})) = {2}"
    unfolding par_candidates_set c using role_app_neq_par
    by (auto simp: demo_pair_fields)
qed

lemma demo_pair_missing:
  "err (after_missing [demo_first, demo_second, demo_partner] 2
          (initial_state [demo_first, demo_second, demo_partner] {})) 0 = None"
  "err (after_missing [demo_first, demo_second, demo_partner] 2
          (initial_state [demo_first, demo_second, demo_partner] {})) 1 = None"
proof -
  let ?T = "[demo_first, demo_second, demo_partner]"
  let ?st = "initial_state ?T {}"
  have "partner_by_id ?T 2 ?st (ascii ''4611111'') = Some 2"
    unfolding partner_by_id_Some demo_pair_candidates by (simp add: demo_pair_fields)
  then have d: "dict_get (partner_by_id ?T 2 ?st) (Some (ascii ''4611111'')) = Some 2"
    by (simp add: dict_get_def)
  show "err (after_missing ?T 2 ?st) 0 = None" "err (after_missing ?T 2 ?st) 1 = None"
    using demo_pair_dedup[of 0] demo_pair_dedup[of 1] d
    by (simp_all add: err_after_missing demo_pair_fields)
qed

lemma demo_ts_less: "timestamp demo_first < timestamp demo_second"
  by (simp add: demo_pair_fields)

lemma codes_differ: "E1 \<noteq> E2" "E2 \<noteq> E1" "E1 \<noteq> E3" "E2 \<noteq> E3"
  by (simp_all add: E1_def E2_def E3_def ascii_def)

lemma demo_pair_facts:
  "err (after_conflicts [demo_first, demo_second, demo_partner] 2
          (initial_state [demo_first, demo_second, demo_partner] {})) 1 = Some E3
   \<and> err (final_state [demo_first, demo_second, demo_partner] 2
          (initial_state [demo_first, demo_second, demo_partner] {})) 0 = Some S0
   \<and> (ascii ''4612345'', ascii ''Sato'', ascii ''4611111'', ascii ''Abe'', 2)
       \<in> set (valid_rows_of [demo_first, demo_second, demo_partner] 2
                (initial_state [demo_first, demo_second, demo_partner] {}))"
proof -
  let ?T = "[demo_first, demo_second, demo_partner]"
  let ?st = "initial_state ?T {}"
  have i: "0 \<in> set (app_candidates ?T 2 ?st)" unfolding demo_pair_candidates by simp
  have w: "has_partner (?T ! 0) = Some WITH_PARTNER" by (simp add: demo_pair_fields)
  from conflict_facts[OF i demo_pair_missing(1) w]
  obtain k where k: "k \<in> set (app_candidates ?T 2 ?st)"
    and row: "\<exists>j. j \<in> set (par_candidates ?T 2 ?st)
                  \<and> partner_id (?T ! k) = Some (person_id (?T ! j))
                  \<and> (person_id (?T ! k), person_name (?T ! k), person_id (?T ! j),
                      person_name (?T ! j), floor_or_0 (floor (?T ! k)))
                       \<in> set (valid_rows_of ?T 2 ?st)"
    and fin: "k < 2 \<longrightarrow> err (final_state ?T 2 ?st) k = Some S0"
    and ab: "\<forall>a b. a \<in> set (app_candidates ?T 2 ?st)
                    \<and> err (after_missing ?T 2 ?st) a = None
                    \<and> has_partner (?T ! a) = Some WITH_PARTNER
                    \<and> partner_id (?T ! a) = partner_id (?T ! 0)
                    \<and> b \<in> set (app_candidates ?T 2 ?st)
                    \<and> err (after_missing ?T 2 ?st) b = None
                    \<and> has_partner (?T ! b) = Some WITH_PARTNER
                    \<and> partner_id (?T ! b) = partner_id (?T ! 0)
                    \<and> timestamp (?T ! a) < timestamp (?T ! b)
                  \<longrightarrow> err (after_conflicts ?T 2 ?st) b = Some E3
                      \<and> err (final_state ?T 2 ?st) b = Some E3
                      \<and> ((\<forall>j. j \<in> set (app_candidates ?T 2 ?st)
                               \<and> err (after_missing ?T 2 ?st) j = None
                               \<and> has_partner (?T ! j) = Some WITH_PARTNER
                               \<and> partner_id (?T ! j) = partner_id (?T ! 0)
                             \<longrightarrow> j = a \<or> j = b)
                           \<longrightarrow> a = k)"
    by blast
  have h: "0 \<in> set (app_candidates ?T 2 ?st)
                    \<and> err (after_missing ?T 2 ?st) 0 = None
                    \<and> has_partner (?T ! 0) = Some WITH_PARTNER
                    \<and> partner_id (?T ! 0) = partner_id (?T ! 0)
                    \<and> 1 \<in> set (app_candidates ?T 2 ?st)
                    \<and> err (after_missing ?T 2 ?st) 1 = None
                    \<and> has_partner (?T ! 1) = Some WITH_PARTNER
                    \<and> partner_id (?T ! 1) = partner_id (?T ! 0)
                    \<and> timestamp (?T ! 0) < timestamp (?T ! 1)"
    using demo_pair_missing demo_ts_less
    by (simp add: demo_pair_candidates demo_pair_fields)
  have all: "\<forall>j. j \<in> set (app_candidates ?T 2 ?st)
                               \<and> err (after_missing ?T 2 ?st) j = None
                               \<and> has_partner (?T ! j) = Some WITH_PARTNER
                               \<and> partner_id (?T ! j) = partner_id (?T ! 0)
                             \<longrightarrow> j = 0 \<or> j = 1"
    unfolding demo_pair_candidates by auto
  from ab[rule_format, OF h] all
  have c1: "err (after_conflicts ?T 2 ?st) 1 = Some E3" and k0: "0 = k" by blast+
  from row obtain j where j: "j \<in> set (par_candidates ?T 2 ?st)"
    and r: "(person_id (?T ! k), person_name (?T ! k), person_id (?T ! j),
                      person_name (?T ! j), floor_or_0 (floor (?T ! k)))
                       \<in> set (valid_rows_of ?T 2 ?st)" by blast
  from j have j2: "j = 2" unfolding demo_pair_candidates by simp
  have "(ascii ''4612345'', ascii ''Sato'', ascii ''4611111'', ascii ''Abe'', 2)
       \<in> set (valid_rows_of ?T 2 ?st)"
    using r unfolding j2 k0[symmetric] by (simp add: demo_pair_fields floor_or_0_def)
  moreover have "err (final_state ?T 2 ?st) 0 = Some S0" using fin unfolding k0[symmetric] by simp
  ultimately show ?thesis using c1 by blast
qed

section \<open>The theorems on the example inputs\<close>

theorem dedup_keeps_latest_witness:
  "err (after_dedup [demo_solo, demo_again] 2 (initial_state [demo_solo, demo_again] {})) 0
     = Some E3
   \<and> err (after_dedup [demo_solo, demo_again] 2 (initial_state [demo_solo, demo_again] {})) 1
     = None"
proof -
  let ?U = "[demo_solo, demo_again]"
  let ?st = "initial_state ?U {}"
  have i: "0 < length ?U" by simp
  from dedup_keeps_latest[OF i demo_dup_clean(1)]
  have ab: "\<forall>a b. a < length ?U \<and> err (after_ineligible ?U 2 ?st) a = None
                    \<and> person_id (?U ! a) = person_id (?U ! 0)
                    \<and> b < length ?U \<and> err (after_ineligible ?U 2 ?st) b = None
                    \<and> person_id (?U ! b) = person_id (?U ! 0)
                    \<and> timestamp (?U ! a) = timestamp (?U ! b)
                    \<and> row_index (?U ! a) < row_index (?U ! b)
                  \<longrightarrow> err (after_dedup ?U 2 ?st) a = Some E3 \<and> b \<noteq> a
                      \<and> ((\<forall>j. j < length ?U \<and> err (after_ineligible ?U 2 ?st) j = None
                               \<and> person_id (?U ! j) = person_id (?U ! 0)
                             \<longrightarrow> j = a \<or> j = b)
                           \<longrightarrow> err (after_dedup ?U 2 ?st) b = None)"
    by blast
  have h: "0 < length ?U \<and> err (after_ineligible ?U 2 ?st) 0 = None
                    \<and> person_id (?U ! 0) = person_id (?U ! 0)
                    \<and> 1 < length ?U \<and> err (after_ineligible ?U 2 ?st) 1 = None
                    \<and> person_id (?U ! 1) = person_id (?U ! 0)
                    \<and> timestamp (?U ! 0) = timestamp (?U ! 1)
                    \<and> row_index (?U ! 0) < row_index (?U ! 1)"
    using demo_dup_clean by (simp add: demo_dup_fields demo_solo_fields)
  have all: "\<forall>j. j < length ?U \<and> err (after_ineligible ?U 2 ?st) j = None
                               \<and> person_id (?U ! j) = person_id (?U ! 0)
                             \<longrightarrow> j = 0 \<or> j = 1"
    by auto
  from ab[rule_format, OF h] all show ?thesis by blast
qed

theorem conflict_keeps_earliest_witness:
  "err (after_conflicts [demo_first, demo_second, demo_partner] 2
          (initial_state [demo_first, demo_second, demo_partner] {})) 1 = Some E3
   \<and> err (final_state [demo_first, demo_second, demo_partner] 2
          (initial_state [demo_first, demo_second, demo_partner] {})) 0 = Some S0
   \<and> (ascii ''4612345'', ascii ''Sato'', ascii ''4611111'', ascii ''Abe'', 2)
       \<in> set (valid_rows_of [demo_first, demo_second, demo_partner] 2
                (initial_state [demo_first, demo_second, demo_partner] {}))"
proof -
  let ?T = "[demo_first, demo_second, demo_partner]"
  let ?st = "initial_state ?T {}"
  have i: "0 \<in> set (app_candidates ?T 2 ?st)" unfolding demo_pair_candidates by simp
  have w: "has_partner (?T ! 0) = Some WITH_PARTNER" by (simp add: demo_pair_fields)
  from conflict_keeps_earliest[OF i demo_pair_missing(1) w]
  obtain k where k: "k \<in> set (app_candidates ?T 2 ?st)"
    and row: "\<exists>j. j \<in> set (par_candidates ?T 2 ?st)
                  \<and> partner_id (?T ! k) = Some (person_id (?T ! j))
                  \<and> (person_id (?T ! k), person_name (?T ! k), person_id (?T ! j),
                      person_name (?T ! j), floor_or_0 (floor (?T ! k)))
                       \<in> set (valid_rows_of ?T 2 ?st)"
    and fin: "k < 2 \<longrightarrow> err (final_state ?T 2 ?st) k = Some S0"
    and ab: "\<forall>a b. a \<in> set (app_candidates ?T 2 ?st)
                    \<and> err (after_missing ?T 2 ?st) a = None
                    \<and> has_partner (?T ! a) = Some WITH_PARTNER
                    \<and> partner_id (?T ! a) = partner_id (?T ! 0)
                    \<and> b \<in> set (app_candidates ?T 2 ?st)
                    \<and> err (after_missing ?T 2 ?st) b = None
                    \<and> has_partner (?T ! b) = Some WITH_PARTNER
                    \<and> partner_id (?T ! b) = partner_id (?T ! 0)
                    \<and> timestamp (?T ! a) < timestamp (?T ! b)
                  \<longrightarrow> err (after_conflicts ?T 2 ?st) b = Some E3
                      \<and> err (final_state ?T 2 ?st) b = Some E3
                      \<and> ((\<forall>j. j \<in> set (app_candidates ?T 2 ?st)
                               \<and> err (after_missing ?T 2 ?st) j = None
                               \<and> has_partner (?T ! j) = Some WITH_PARTNER
                               \<and> partner_id (?T ! j) = partner_id (?T ! 0)
                             \<longrightarrow> j = a \<or> j = b)
                           \<longrightarrow> a = k)"
    by blast
  have h: "0 \<in> set (app_candidates ?T 2 ?st)
                    \<and> err (after_missing ?T 2 ?st) 0 = None
                    \<and> has_partner (?T ! 0) = Some WITH_PARTNER
                    \<and> partner_id (?T ! 0) = partner_id (?T ! 0)
                    \<and> 1 \<in> set (app_candidates ?T 2 ?st)
                    \<and> err (after_missing ?T 2 ?st) 1 = None
                    \<and> has_partner (?T ! 1) = Some WITH_PARTNER
                    \<and> partner_id (?T ! 1) = partner_id (?T ! 0)
                    \<and> timestamp (?T ! 0) < timestamp (?T ! 1)"
    using demo_pair_missing demo_ts_less
    by (simp add: demo_pair_candidates demo_pair_fields)
  have all: "\<forall>j. j \<in> set (app_candidates ?T 2 ?st)
                               \<and> err (after_missing ?T 2 ?st) j = None
                               \<and> has_partner (?T ! j) = Some WITH_PARTNER
                               \<and> partner_id (?T ! j) = partner_id (?T ! 0)
                             \<longrightarrow> j = 0 \<or> j = 1"
    unfolding demo_pair_candidates by auto
  from ab[rule_format, OF h] all
  have c1: "err (after_conflicts ?T 2 ?st) 1 = Some E3" and k0: "0 = k" by blast+
  from row obtain j where j: "j \<in> set (par_candidates ?T 2 ?st)"
    and r: "(person_id (?T ! k), person_name (?T ! k), person_id (?T ! j),
                      person_name (?T ! j), floor_or_0 (floor (?T ! k)))
                       \<in> set (valid_rows_of ?T 2 ?st)" by blast
  from j have j2: "j = 2" unfolding demo_pair_candidates by simp
  have "(ascii ''4612345'', ascii ''Sato'', ascii ''4611111'', ascii ''Abe'', 2)
       \<in> set (valid_rows_of ?T 2 ?st)"
    using r unfolding j2 k0[symmetric] by (simp add: demo_pair_fields floor_or_0_def)
  moreover have "err (final_state ?T 2 ?st) 0 = Some S0" using fin unfolding k0[symmetric] by simp
  ultimately show ?thesis using c1 by blast
qed

lemma demo_pair_rows:
  "(ascii ''4612345'', ascii ''Sato'', ascii ''4611111'', ascii ''Abe'', 2)
     \<in> set (fst (snd (snd (process_term 0 [demo_first, demo_second] [demo_partner] {}))))"
proof -
  have "process_term 0 [demo_first, demo_second] [demo_partner] {} =
          (fst (process_term 0 [demo_first, demo_second] [demo_partner] {}),
           fst (snd (process_term 0 [demo_first, demo_second] [demo_partner] {})),
           fst (snd (snd (process_term 0 [demo_first, demo_second] [demo_partner] {}))),
           snd (snd (snd (process_term 0 [demo_first, demo_second] [demo_partner] {}))))"
    by simp
  from process_term_rows[OF this]
  have "fst (snd (snd (process_term 0 [demo_first, demo_second] [demo_partner] {}))) =
          valid_rows_of ([demo_first, demo_second] @ [demo_partner]) 2
            (initial_state ([demo_first, demo_second] @ [demo_partner]) {})"
    by (simp add: numeral_2_eq_2)
  then show ?thesis using demo_pair_facts by simp
qed

theorem allocation_rows_wellformed_witness:
  "(ascii ''4612345'', ascii ''Sato'', ascii ''4611111'', ascii ''Abe'', 2)
     \<in> set (fst (snd (snd (process_term 0 [demo_first, demo_second] [demo_partner] {}))))
   \<and> is_valid_student_id (ascii ''4612345'') \<and> ascii ''4611111'' \<noteq> [] \<and> ascii ''Abe'' \<noteq> []
   \<and> is_valid_student_id (ascii ''4611111'')"
proof -
  have fl: "\<forall>s \<in> set ([demo_first, demo_second] @ [demo_partner]).
              \<forall>f. floor s = Some f \<longrightarrow> 2 \<le> f \<and> f \<le> 6"
    by (simp add: demo_first_def demo_second_def demo_partner_def)
  have p: "process_term 0 [demo_first, demo_second] [demo_partner] {} =
          (fst (process_term 0 [demo_first, demo_second] [demo_partner] {}),
           fst (snd (process_term 0 [demo_first, demo_second] [demo_partner] {})),
           fst (snd (snd (process_term 0 [demo_first, demo_second] [demo_partner] {}))),
           snd (snd (snd (process_term 0 [demo_first, demo_second] [demo_partner] {}))))"
    by simp
  note all = allocation_rows_wellformed[OF fl p]
  have c: "(2::int) \<le> 2 \<and> (2::int) \<le> 6 \<and> ascii ''4612345'' \<noteq> []
           \<and> is_valid_student_id (ascii ''4612345'')
           \<and> (ascii ''4611111'' = [] \<and> ascii ''Abe'' = []
                \<or> ascii ''4611111'' \<noteq> [] \<and> ascii ''Abe'' \<noteq> []
                    \<and> is_valid_student_id (ascii ''4611111''))"
    using bspec[OF all demo_pair_rows] unfolding prod.case .
  have ne: "ascii ''4611111'' \<noteq> []" by (simp add: ascii_def)
  from c ne demo_pair_rows show ?thesis by blast
qed

theorem one_acceptance_per_person_witness:
  "(ascii ''4612345'', ascii ''Sato'', ascii ''4611111'', ascii ''Abe'', 2)
     \<in> set (fst (snd (snd (process_term 0 [demo_first, demo_second] [demo_partner] {}))))
   \<and> distinct
       (map fst (fst (snd (snd (process_term 0 [demo_first, demo_second] [demo_partner] {}))))
        @ filter (\<lambda>p. p \<noteq> [])
            (map (\<lambda>r. fst (snd (snd r)))
               (fst (snd (snd (process_term 0 [demo_first, demo_second] [demo_partner] {}))))))"
proof -
  have p: "process_term 0 [demo_first, demo_second] [demo_partner] {} =
          (fst (process_term 0 [demo_first, demo_second] [demo_partner] {}),
           fst (snd (process_term 0 [demo_first, demo_second] [demo_partner] {})),
           fst (snd (snd (process_term 0 [demo_first, demo_second] [demo_partner] {}))),
           snd (snd (snd (process_term 0 [demo_first, demo_second] [demo_partner] {}))))"
    by simp
  from one_acceptance_per_person[OF p] demo_pair_rows show ?thesis by blast
qed

theorem every_submission_one_outcome_witness:
  "process_term 0 [demo_solo] [] {} =
     ([demo_solo\<lparr>error := Some S0\<rparr>], [],
      [(ascii ''4612345'', ascii ''Sato'', [], [], 4)], {})
   \<and> length [demo_solo\<lparr>error := Some S0\<rparr>] = length [demo_solo]
   \<and> error (demo_solo\<lparr>error := Some S0\<rparr>) = Some S0"
  using every_submission_one_outcome[OF demo_term0] demo_term0 by simp

theorem ineligible_set_discipline_witness:
  "ineligible_before [0, 1] [demo_solo, demo_late_valid] [] {} 0 = {}
   \<and> ineligible_before [0, 1] [demo_solo, demo_late_valid] [] {} 1 = {ascii ''4612345''}"
proof -
  have k: "0 < length [0::int, 1]" by simp
  from ineligible_set_discipline[OF k, of "[demo_solo, demo_late_valid]" "[]" "{}"]
  obtain pa pp rows where
    n: "fst (run_terms [0, 1] [demo_solo, demo_late_valid] [] {}) ! 0 = (pa, pp, rows)"
    and s: "ineligible_before [0, 1] [demo_solo, demo_late_valid] [] {} (Suc 0)
             = ineligible_before [0, 1] [demo_solo, demo_late_valid] [] {} 0
               \<union> row_person_ids rows"
    and z: "ineligible_before [0, 1] [demo_solo, demo_late_valid] [] {} 0 = {}"
    by auto
  have "rows = [(ascii ''4612345'', ascii ''Sato'', [], [], 4)]"
    using n unfolding demo_run_valid by simp
  then show ?thesis using s z by (simp add: demo_row_ids)
qed

theorem ineligibility_carryover_witness:
  "map person_id (fst (fst (run_terms [0, 1] [demo_solo, demo_late_valid] [] {}) ! 1))
     = [ascii ''4612345'']
   \<and> map error (fst (fst (run_terms [0, 1] [demo_solo, demo_late_valid] [] {}) ! 1))
     = [Some E2]"
proof -
  have k: "(0::nat) < 1" "1 < length [0::int, 1]" by simp_all
  have r: "ascii ''4612345'' \<in> row_person_ids
             (snd (snd (fst (run_terms [0, 1] [demo_solo, demo_late_valid] [] {}) ! 0)))"
    unfolding demo_run_valid by (simp add: demo_row_ids)
  from ineligibility_carryover[OF k r]
  obtain pa pp rows where
    n: "fst (run_terms [0, 1] [demo_solo, demo_late_valid] [] {}) ! 1 = (pa, pp, rows)"
    and a: "\<forall>s \<in> set pa. person_id s = ascii ''4612345'' \<longrightarrow>
                error s = (if apply_input_validation s = None
                              \<and> \<not> (has_partner s = Some WITH_PARTNER
                                    \<and> partner_id s \<notin> Some ` {p \<in> person_id ` set pp. p \<noteq> []})
                           then Some E2 else Some E1)"
    by blast
  have pa: "pa = [demo_late_valid\<lparr>error := Some E2\<rparr>]"
    using n unfolding demo_run_valid by simp
  have "error (demo_late_valid\<lparr>error := Some E2\<rparr>) = Some E2"
    using a unfolding pa
    by (simp add: demo_solo_fields demo_validation sentinels_differ)
  then show ?thesis unfolding n pa by (simp add: demo_solo_fields)
qed

text \<open>
  The person of \<open>demo_solo\<close> is accepted in term 0 and submits again in term 1 without
  the consent: the submission of term 1 gets E1, not E2.
\<close>

theorem ineligibility_carryover_counterexample:
  "ascii ''4612345'' \<in> row_person_ids
     (snd (snd (fst (run_terms [0, 1] [demo_solo, demo_late_invalid] [] {}) ! 0)))
   \<and> map person_id (fst (fst (run_terms [0, 1] [demo_solo, demo_late_invalid] [] {}) ! 1))
       = [ascii ''4612345'']
   \<and> map error (fst (fst (run_terms [0, 1] [demo_solo, demo_late_invalid] [] {}) ! 1))
       = [Some E1]
   \<and> E1 \<noteq> E2"
  unfolding demo_run_invalid by (simp add: demo_row_ids demo_solo_fields codes_differ)

end
